theory Spec2Isabelle
  imports Main "HOL-Library.Word" "HOL-Library.Multiset"
begin

unbundle bit_operations_syntax

section \<open>Constants of the raw pixel reader\<close>

text \<open>
  The development follows \<^verbatim>\<open>RawPixelReader.h\<close> (namespace \<^verbatim>\<open>o2::itsmft\<close>).
  C \<^verbatim>\<open>int\<close> counters are modelled as \<^typ>\<open>int\<close>; the bit masks and the fields of the
  raw data header are machine words.
\<close>

definition MaxLinksPerRU :: int where
  "MaxLinksPerRU = 3"

definition MaxCablesPerRU :: int where
  "MaxCablesPerRU = 28"

definition MaxChipsPerRU :: int where
  "MaxChipsPerRU = 196"

definition MaxGBTPacketBytes :: int where
  "MaxGBTPacketBytes = 8 * 1024"

definition NCRUPagesPerSuperpage :: int where
  "NCRUPagesPerSuperpage = 256"

text \<open>
  The length of a GBT word without and with padding to 128 bits (\<^verbatim>\<open>GBTWord.h\<close>), and the
  size of the raw data header (eight 64-bit words).
\<close>

definition GBTWordLength :: int where
  "GBTWordLength = 10"

definition GBTPaddedWordLength :: int where
  "GBTPaddedWordLength = 16"

definition sizeofRDH :: int where
  "sizeofRDH = 64"

section \<open>The raw data header\<close>

text \<open>
  \<^verbatim>\<open>o2::header::RAWDataHeader\<close> is declared in \<^verbatim>\<open>Headers/RAWDataHeader.h\<close>, outside the
  reader's file. The record lists the fields the reader reads or writes, with the widths
  of the bit fields of the header (version 4, eight 64-bit words).
\<close>

record RAWDataHeader =
  version :: "8 word"
  headerSize :: "8 word"
  blockLength :: "16 word"
  feeId :: "16 word"
  priority :: "8 word"
  zero0 :: "8 word"
  offsetToNext :: "16 word"
  memorySize :: "16 word"
  linkID :: "8 word"
  packetCounter :: "8 word"
  cruID :: "12 word"
  triggerOrbit :: "32 word"
  heartbeatOrbit :: "32 word"
  zero1 :: "64 word"
  triggerBC :: "12 word"
  zero41 :: "4 word"
  heartbeatBC :: "12 word"
  zero42 :: "4 word"
  triggerType :: "32 word"
  word5 :: "64 word"
  detectorField :: "16 word"
  par :: "16 word"
  stop :: "8 word"
  pageCnt :: "16 word"
  zero6 :: "8 word"

text \<open>
  A default-constructed header: version 4, the header size, the dummy block length, all
  other fields zero.
\<close>

definition defaultRDH :: RAWDataHeader where
  "defaultRDH = \<lparr>version = 4, headerSize = 64, blockLength = 0xFFFF, feeId = 0, priority = 0,
     zero0 = 0, offsetToNext = 0, memorySize = 0, linkID = 0, packetCounter = 0, cruID = 0,
     triggerOrbit = 0, heartbeatOrbit = 0, zero1 = 0, triggerBC = 0, zero41 = 0,
     heartbeatBC = 0, zero42 = 0, triggerType = 0, word5 = 0, detectorField = 0, par = 0,
     stop = 0, pageCnt = 0, zero6 = 0\<rparr>"

text \<open>\<^verbatim>\<open>isSameRUandTrigger\<close>: is \<open>rdhNew\<close> a continuation of the data described by \<open>rdhOld\<close>?\<close>

definition isSameRUandTrigger :: "RAWDataHeader \<Rightarrow> RAWDataHeader \<Rightarrow> bool" where
  "isSameRUandTrigger rdhOld rdhNew =
     (if pageCnt rdhNew = 0 \<or> feeId rdhNew \<noteq> feeId rdhOld \<or>
         triggerOrbit rdhNew \<noteq> triggerOrbit rdhOld \<or>
         triggerBC rdhNew \<noteq> triggerBC rdhOld \<or>
         heartbeatOrbit rdhNew \<noteq> heartbeatOrbit rdhOld \<or>
         heartbeatBC rdhNew \<noteq> heartbeatBC rdhOld \<or>
         (triggerType rdhNew AND triggerType rdhOld) = 0
      then False else True)"

section \<open>Decoding statistics of a readout unit\<close>

text \<open>The counters for format checks, \<^verbatim>\<open>RUDecodingStat::DecErrors\<close>.\<close>

datatype DecErrors =
    ErrPageCounterDiscontinuity
  | ErrRDHvsGBTHPageCnt
  | ErrMissingGBTHeader
  | ErrMissingGBTTrailer
  | ErrNonZeroPageAfterStop
  | ErrUnstoppedLanes
  | ErrDataForStoppedLane
  | ErrNoDataForActiveLane
  | ErrIBChipLaneMismatch
  | ErrCableDataHeadWrong

text \<open>
  \<^verbatim>\<open>struct RUDecodingStat\<close>: the lane masks, the number of packets and the two counter
  arrays; \<open>errorCounts\<close> is indexed by the error, \<open>packetStates\<close> by the packet state
  of the trailer.
\<close>

record RUDecodingStat =
  lanesActive :: "32 word"
  lanesStop :: "32 word"
  lanesTimeOut :: "32 word"
  lanesWithData :: "32 word"
  nPackets :: "32 word"
  errorCounts :: "DecErrors \<Rightarrow> int"
  packetStates :: "nat \<Rightarrow> int"

definition clearStat :: "RUDecodingStat \<Rightarrow> RUDecodingStat" where
  "clearStat s = s\<lparr>nPackets := 0, errorCounts := (\<lambda>_. 0), packetStates := (\<lambda>_. 0),
     lanesActive := 0, lanesStop := 0, lanesTimeOut := 0, lanesWithData := 0\<rparr>"

text \<open>\<^verbatim>\<open>ruStat.errorCounts[e]++\<close>\<close>

definition countError :: "DecErrors \<Rightarrow> RUDecodingStat \<Rightarrow> RUDecodingStat" where
  "countError e s = s\<lparr>errorCounts := (errorCounts s)(e := errorCounts s e + 1)\<rparr>"

text \<open>
  The checks \<^verbatim>\<open>decodeRUData\<close> and \<^verbatim>\<open>skimPaddedRUData\<close> make when the header after the
  finished page is not a continuation (\<^verbatim>\<open>!isSameRUandTrigger(rdh, rdhN)\<close>): the lane stops,
  the lanes without data, and the packet state of the trailer. \<open>sot\<close> is the constant
  \<^verbatim>\<open>o2::trigger::SOT\<close> of \<^verbatim>\<open>DetectorsBase/Triggers.h\<close>, \<open>rdh\<close> the header of the finished
  page and \<open>pstate\<close> the value of \<^verbatim>\<open>gbtT->getPacketState()\<close>.
\<close>

definition checkLaneStops :: "32 word \<Rightarrow> RAWDataHeader \<Rightarrow> RUDecodingStat \<Rightarrow> RUDecodingStat" where
  "checkLaneStops sot rdh ruStat =
     (if lanesActive ruStat \<noteq> lanesStop ruStat
      then (if triggerType rdh \<noteq> sot then countError ErrUnstoppedLanes ruStat else ruStat)
      else ruStat)"

definition checkLanesWithData :: "RUDecodingStat \<Rightarrow> RUDecodingStat" where
  "checkLanesWithData ruStat =
     (if (NOT (lanesWithData ruStat) AND lanesActive ruStat) \<noteq> lanesTimeOut ruStat
      then countError ErrNoDataForActiveLane ruStat else ruStat)"

definition countPacketState :: "nat \<Rightarrow> RUDecodingStat \<Rightarrow> RUDecodingStat" where
  "countPacketState pstate ruStat =
     ruStat\<lparr>packetStates := (packetStates ruStat)(pstate := packetStates ruStat pstate + 1)\<rparr>"

definition endOfTriggerChecks ::
  "32 word \<Rightarrow> RAWDataHeader \<Rightarrow> nat \<Rightarrow> RUDecodingStat \<Rightarrow> RUDecodingStat" where
  "endOfTriggerChecks sot rdh pstate ruStat =
     countPacketState pstate (checkLanesWithData (checkLaneStops sot rdh ruStat))"

section \<open>Byte buffers\<close>

type_synonym byte = "8 word"

text \<open>
  Modelled from the spec: \<^verbatim>\<open>PayLoadCont\<close> (\<^verbatim>\<open>ITSMFTReconstruction/PayLoadCont.h\<close> is not
  part of the reader's file) is "an owned buffer plus a read cursor": \<open>buf\<close> holds the
  bytes stored so far (from the beginning of the buffer to its end), \<open>ptr\<close> is the offset of
  the read cursor. Appending never fails (the capacity grows as needed).
\<close>

record PayLoadCont =
  buf :: "byte list"
  ptr :: nat

definition emptyCont :: PayLoadCont where
  "emptyCont = \<lparr>buf = [], ptr = 0\<rparr>"

definition getSize :: "PayLoadCont \<Rightarrow> nat" where
  "getSize c = length (buf c)"

definition getUnusedSize :: "PayLoadCont \<Rightarrow> nat" where
  "getUnusedSize c = length (buf c) - ptr c"

definition isEmpty :: "PayLoadCont \<Rightarrow> bool" where
  "isEmpty c \<longleftrightarrow> length (buf c) \<le> ptr c"

text \<open>The bytes from the read cursor to the end of the buffer.\<close>

definition unusedBytes :: "PayLoadCont \<Rightarrow> byte list" where
  "unusedBytes c = drop (ptr c) (buf c)"

definition clearCont :: "PayLoadCont \<Rightarrow> PayLoadCont" where
  "clearCont c = c\<lparr>buf := [], ptr := 0\<rparr>"

definition addFast :: "byte list \<Rightarrow> PayLoadCont \<Rightarrow> PayLoadCont" where
  "addFast bs c = c\<lparr>buf := buf c @ bs\<rparr>"

definition setPtr :: "nat \<Rightarrow> PayLoadCont \<Rightarrow> PayLoadCont" where
  "setPtr p c = c\<lparr>ptr := p\<rparr>"

definition moveUnusedToHead :: "PayLoadCont \<Rightarrow> PayLoadCont" where
  "moveUnusedToHead c = c\<lparr>buf := drop (ptr c) (buf c), ptr := 0\<rparr>"

section \<open>Data of a readout unit\<close>

text \<open>\<^verbatim>\<open>struct RULink\<close>: the data of one GBT link.\<close>

record RULink =
  data :: PayLoadCont
  lastPageSize :: int
  nTriggers :: int
  lanes :: "32 word"

definition newRULink :: RULink where
  "newRULink = \<lparr>data = emptyCont, lastPageSize = 0, nTriggers = 0, lanes = 0\<rparr>"

text \<open>
  The interaction record, the digits and the pixel data of a chip (\<^verbatim>\<open>InteractionRecord.h\<close>,
  \<^verbatim>\<open>Digit.h\<close>, \<^verbatim>\<open>PixelData.h\<close>): the fields the reader uses.
\<close>

record InteractionRecord =
  bc :: "16 word"
  orbit :: "32 word"

record Digit =
  chipIndex :: nat
  row :: nat
  col :: nat

record ChipPixelData =
  chipID :: nat
  interactionRecord :: InteractionRecord
  trigger :: "32 word"
  pixels :: "(nat \<times> nat) list"

definition emptyChip :: ChipPixelData where
  "emptyChip = \<lparr>chipID = 0, interactionRecord = \<lparr>bc = 0, orbit = 0\<rparr>, trigger = 0,
     pixels = []\<rparr>"

text \<open>\<^verbatim>\<open>ChipPixelData::clear()\<close> empties the pixel container.\<close>

definition clearChip :: "ChipPixelData \<Rightarrow> ChipPixelData" where
  "clearChip c = c\<lparr>pixels := []\<rparr>"

text \<open>
  The mapping between software chip ids and hardware addresses is a template parameter
  of the reader (\<^verbatim>\<open>ChipMappingITS\<close> by default, not part of the reader's file); the model
  takes the functions the reader calls as a parameter.
\<close>

record RUInfo =
  idSW :: nat
  idHW :: "16 word"
  ruType :: nat
  nCablesRU :: nat

record ChipOnRUInfo =
  chipIdOnRU :: nat
  cableSW :: nat
  cableHW :: byte
  chipOnModuleHW :: nat

record ChipInfo =
  ru :: nat
  chOnRU :: ChipOnRUInfo

record ChipMapping =
  getNRUs :: nat
  getRUInfoSW :: "nat \<Rightarrow> RUInfo"
  RUSW2FEEId :: "nat \<Rightarrow> nat \<Rightarrow> 16 word"
  FEEId2RUSW :: "16 word \<Rightarrow> nat"
  getCablesOnRUType :: "nat \<Rightarrow> 32 word"
  getGBTHeaderRUType :: "nat \<Rightarrow> byte \<Rightarrow> byte"
  getRUDetectorField :: "16 word"
  getChipInfoSW :: "nat \<Rightarrow> ChipInfo"
  getChipOnRUInfo :: "nat \<Rightarrow> nat \<Rightarrow> ChipOnRUInfo"
  getNChipsOnRUType :: "nat \<Rightarrow> nat"
  cableHW2SW :: "nat \<Rightarrow> byte \<Rightarrow> nat"
  getGlobalChipID :: "nat \<Rightarrow> byte \<Rightarrow> RUInfo \<Rightarrow> nat"

text \<open>
  The ALPIDE coder (\<^verbatim>\<open>AlpideCoder.h\<close>, not part of the reader's file), as a parameter:
  \<open>encodeChip\<close> and \<open>addEmptyChip\<close> give the bytes appended to the cable buffer, \<open>decodeChip\<close>
  reads the unused bytes of a cable buffer and gives its return value, the decoded chip
  and the number of bytes it consumed.
\<close>

record AlpideCoder =
  encodeChip :: "ChipPixelData \<Rightarrow> nat \<Rightarrow> 16 word \<Rightarrow> byte list"
  addEmptyChip :: "nat \<Rightarrow> 16 word \<Rightarrow> byte list"
  decodeChip :: "byte list \<Rightarrow> int \<times> ChipPixelData \<times> nat"
  isChipHeaderOrEmpty :: "byte \<Rightarrow> bool"

text \<open>\<^verbatim>\<open>struct RUDecodeData\<close>; \<open>ruInfo\<close> is a pointer, null until the container is defined.\<close>

record RUDecodeData =
  cableData :: "PayLoadCont list"
  cableHWID :: "byte list"
  chipsData :: "ChipPixelData list"
  links :: "RULink option list"
  statistics :: RUDecodingStat
  nCables :: nat
  nChipsFired :: nat
  lastChipChecked :: nat
  ruInfo :: "RUInfo option"

definition newStat :: RUDecodingStat where
  "newStat = \<lparr>lanesActive = 0, lanesStop = 0, lanesTimeOut = 0, lanesWithData = 0,
     nPackets = 0, errorCounts = (\<lambda>_. 0), packetStates = (\<lambda>_. 0)\<rparr>"

definition newRUDecodeData :: RUDecodeData where
  "newRUDecodeData = \<lparr>cableData = replicate (nat MaxCablesPerRU) emptyCont,
     cableHWID = replicate (nat MaxCablesPerRU) 0,
     chipsData = replicate (nat MaxChipsPerRU) emptyChip,
     links = replicate (nat MaxLinksPerRU) None,
     statistics = newStat, nCables = 0, nChipsFired = 0, lastChipChecked = 0,
     ruInfo = None\<rparr>"

text \<open>
  \<^verbatim>\<open>RUDecodeData::clearTrigger()\<close>: clears the buffers of the cables \<open>nCables - 1, ..., 0\<close>
  and sets \<open>nCables\<close> to zero.
\<close>

definition clearTrigger :: "RUDecodeData \<Rightarrow> RUDecodeData" where
  "clearTrigger d =
     d\<lparr>cableData := fold (\<lambda>i cs. cs[i := clearCont (cs ! i)]) (rev [0..<nCables d]) (cableData d),
       nCables := 0\<rparr>"

section \<open>Encoding: filling the link buffers\<close>

text \<open>
  What \<^verbatim>\<open>fillRULinks\<close> appends to the buffer of a link, piece by piece: a raw data header
  (its first \<open>headerSize\<close> bytes), a GBT header with its packet id and lanes, a GBT data
  word, a GBT trailer with its stopped lanes and packet state.
\<close>

datatype chunk =
    RDHChunk RAWDataHeader
  | HeaderChunk "16 word" "32 word"
  | DataChunk "byte list"
  | TrailerChunk "32 word" nat

text \<open>
  The byte images of the header and of the GBT words (\<^verbatim>\<open>RAWDataHeader.h\<close>, \<^verbatim>\<open>GBTWord.h\<close>),
  the constant \<^verbatim>\<open>GBTDataTrailer::PacketDone\<close> and the trigger types \<^verbatim>\<open>o2::trigger::PhT\<close>
  and \<^verbatim>\<open>o2::trigger::SOT\<close> are parameters of the model. \<open>rdhBytes\<close> gives the bytes of a
  header in memory and \<open>rdhAt\<close> the header read from the bytes at a pointer;
  \<open>putOffsetToNext\<close> is the assignment to the field \<open>offsetToNext\<close> of a header in memory.
  \<open>gbtHeaderW8\<close> and \<open>gbtTrailerW8\<close> give the 16 bytes of a GBT header with its packet id
  and lanes and of a GBT trailer with its stopped lanes and packet state; the other
  functions are the accessors of the GBT words, applied to the 10 bytes of a word.
\<close>

record WireFormat =
  rdhBytes :: "RAWDataHeader \<Rightarrow> byte list"
  rdhAt :: "byte list \<Rightarrow> RAWDataHeader"
  putOffsetToNext :: "16 word \<Rightarrow> byte list \<Rightarrow> byte list"
  gbtHeaderW8 :: "16 word \<Rightarrow> 32 word \<Rightarrow> byte list"
  gbtTrailerW8 :: "32 word \<Rightarrow> nat \<Rightarrow> byte list"
  isDataHeader :: "byte list \<Rightarrow> bool"
  isDataTrailer :: "byte list \<Rightarrow> bool"
  getPacketID :: "byte list \<Rightarrow> 16 word"
  getLanes :: "byte list \<Rightarrow> 32 word"
  getCableID :: "byte list \<Rightarrow> byte"
  getLanesStop :: "byte list \<Rightarrow> 32 word"
  getLanesTimeout :: "byte list \<Rightarrow> 32 word"
  getPacketState :: "byte list \<Rightarrow> nat"
  PacketDone :: nat
  PhT :: "32 word"
  SOT :: "32 word"

fun chunkBytes :: "WireFormat \<Rightarrow> nat \<Rightarrow> chunk \<Rightarrow> byte list" where
  "chunkBytes W ws (RDHChunk rdh) = take (unat (headerSize rdh)) (rdhBytes W rdh)"
| "chunkBytes W ws (HeaderChunk pid lns) = take ws (gbtHeaderW8 W pid lns)"
| "chunkBytes W ws (DataChunk w) = w"
| "chunkBytes W ws (TrailerChunk lns st) = take ws (gbtTrailerW8 W lns st)"

text \<open>The number of bytes a piece takes in the link buffer.\<close>

fun chunkSize :: "nat \<Rightarrow> chunk \<Rightarrow> nat" where
  "chunkSize ws (RDHChunk rdh) = unat (headerSize rdh)"
| "chunkSize ws (DataChunk w) = length w"
| "chunkSize ws _ = ws"

text \<open>The local variables of \<^verbatim>\<open>fillRULinks\<close> while the data of one link are written.\<close>

record fillState =
  fcables :: "PayLoadCont list"
  fchunks :: "chunk list"
  frdh :: RAWDataHeader
  fneeded :: int
  finPacket :: int
  fnTriggers :: int

text \<open>\<^verbatim>\<open>link->lanes & (0x1 << icab)\<close>\<close>

definition servesLane :: "32 word \<Rightarrow> nat \<Rightarrow> bool" where
  "servesLane lns icab \<longleftrightarrow> (lns AND push_bit icab 1) \<noteq> 0"

text \<open>
  The number of GBT words a link needs: for the cables \<open>nCables - 1, ..., 0\<close> served by
  the link, \<open>nb ? 1 + (nb - 1) / 9 : 0\<close> with \<open>nb\<close> the size of the cable buffer.
\<close>

definition wordsOfCable :: "PayLoadCont \<Rightarrow> int" where
  "wordsOfCable c = (let nb = int (getSize c) in if nb \<noteq> 0 then 1 + (nb - 1) div 9 else 0)"

definition countGBTWords :: "32 word \<Rightarrow> PayLoadCont list \<Rightarrow> nat \<Rightarrow> int" where
  "countGBTWords lns cables ncab =
     fold (\<lambda>icab n. if servesLane lns icab then n + wordsOfCable (cables ! icab) else n)
       (rev [0..<ncab]) 0"

text \<open>
  One run of the loop over the cables \<open>icab, ...\<close> of the link: every served cable with
  unused data gives one GBT word of at most 9 bytes, padded with zeros to the word size,
  with the cable flag in byte 9; the loop is left when the packet is full.
\<close>

fun cablesToLink ::
  "nat \<Rightarrow> 32 word \<Rightarrow> (nat \<Rightarrow> byte) \<Rightarrow> int \<Rightarrow> nat list \<Rightarrow> fillState \<Rightarrow> fillState" where
  "cablesToLink ws lns flag maxW [] st = st"
| "cablesToLink ws lns flag maxW (icab # rest) st =
     (if servesLane lns icab then
        (let cable = fcables st ! icab; nb = getUnusedSize cable in
         if nb = 0 then cablesToLink ws lns flag maxW rest st
         else
           (let nb9 = (if nb > 9 then 9 else nb);
                w = (take nb9 (unusedBytes cable) @ replicate (ws - nb9) 0)[9 := flag icab];
                st' = st\<lparr>fchunks := fchunks st @ [DataChunk w],
                         fcables := (fcables st)[icab := setPtr (ptr cable + nb9) cable],
                         fneeded := fneeded st - 1,
                         finPacket := finPacket st + 1\<rparr>
            in if finPacket st' = maxW then st'
               else cablesToLink ws lns flag maxW rest st'))
      else cablesToLink ws lns flag maxW rest st)"

text \<open>
  The size of the page written next, for \<open>n\<close> words still needed and words of \<open>wlen\<close>
  bytes: \<open>headerSize + (n + 2) * wlen\<close>, stored in the 16-bit field and then cut at the
  maximal size of a packet.
\<close>

definition pageMemorySize :: "RAWDataHeader \<Rightarrow> int \<Rightarrow> int \<Rightarrow> 16 word" where
  "pageMemorySize rdh n wlen =
     (let m = (word_of_int (uint (headerSize rdh) + (n + 2) * wlen) :: 16 word)
      in if uint m > MaxGBTPacketBytes then word_of_int MaxGBTPacketBytes else m)"

definition pageOffsetToNext :: "bool \<Rightarrow> 16 word \<Rightarrow> 16 word" where
  "pageOffsetToNext imposeMaxPage msize =
     (if imposeMaxPage then word_of_int MaxGBTPacketBytes else msize)"

text \<open>
  More data to write and the packet is full: the empty trailer of the current packet,
  then the header of a new page (page counter increased, \<open>stop\<close> set when fewer than a
  full packet of words remain) and its GBT header.
\<close>

definition newPage :: "bool \<Rightarrow> 32 word \<Rightarrow> int \<Rightarrow> fillState \<Rightarrow> fillState" where
  "newPage imposeMaxPage lns maxW st =
     (let rdh1 = (frdh st)\<lparr>pageCnt := pageCnt (frdh st) + 1,
                    stop := (if fneeded st < maxW then 1 else 0),
                    blockLength := 0xFFFF\<rparr>;
          msize = pageMemorySize rdh1 (fneeded st) GBTPaddedWordLength;
          rdh2 = rdh1\<lparr>memorySize := msize, offsetToNext := pageOffsetToNext imposeMaxPage msize\<rparr>
      in st\<lparr>fchunks := fchunks st @
                 [TrailerChunk 0 0, RDHChunk rdh2, HeaderChunk (pageCnt rdh2) lns],
            frdh := rdh2,
            fnTriggers := fnTriggers st + 1,
            finPacket := 0\<rparr>)"

definition unusedTotal :: "fillState \<Rightarrow> nat" where
  "unusedTotal st = sum_list (map getUnusedSize (fcables st))"

text \<open>One run of the body of the \<^verbatim>\<open>do ... while (nGBTWordsNeeded)\<close> loop.\<close>

definition fillStep ::
  "nat \<Rightarrow> bool \<Rightarrow> 32 word \<Rightarrow> (nat \<Rightarrow> byte) \<Rightarrow> int \<Rightarrow> nat \<Rightarrow> fillState \<Rightarrow> fillState" where
  "fillStep ws imposeMaxPage lns flag maxW ncab st =
     (let st1 = cablesToLink ws lns flag maxW [0..<ncab] st
      in if fneeded st1 \<noteq> 0 \<and> finPacket st1 \<ge> maxW
         then newPage imposeMaxPage lns maxW st1 else st1)"

text \<open>
  Ways in which a call does not return normally: the loop does not end, a null pointer
  or an array element out of range is used, an \<^verbatim>\<open>assert\<close> fails.
\<close>

datatype fault = Diverges | NullPointer | OutOfRange | AssertFailed

definition bindF :: "fault + 'a \<Rightarrow> ('a \<Rightarrow> fault + 'b) \<Rightarrow> fault + 'b" where
  "bindF m f = (case m of Inl e \<Rightarrow> Inl e | Inr x \<Rightarrow> f x)"

text \<open>
  The loop \<^verbatim>\<open>do ... while (nGBTWordsNeeded)\<close>. A run of the body that uses no byte of any
  cable changes neither the cable buffers nor the number of words needed, and so does
  every later run: the loop does not end.
\<close>

function fillPages ::
  "nat \<Rightarrow> bool \<Rightarrow> 32 word \<Rightarrow> (nat \<Rightarrow> byte) \<Rightarrow> int \<Rightarrow> nat \<Rightarrow> fillState \<Rightarrow> fault + fillState" where
  "fillPages ws imposeMaxPage lns flag maxW ncab st =
     (let st' = fillStep ws imposeMaxPage lns flag maxW ncab st
      in if fneeded st' = 0 then Inr st'
         else if unusedTotal st' < unusedTotal st
           then fillPages ws imposeMaxPage lns flag maxW ncab st'
           else Inl Diverges)"
  by pat_completeness auto
termination
  by (relation "measure (\<lambda>(ws, imposeMaxPage, lns, flag, maxW, ncab, st). unusedTotal st)") auto

declare fillPages.simps [simp del]

text \<open>The header \<^verbatim>\<open>fillRULinks\<close> prepares for the pages of the current trigger.\<close>

definition triggerRDH :: "ChipMapping \<Rightarrow> WireFormat \<Rightarrow> InteractionRecord \<Rightarrow> RAWDataHeader" where
  "triggerRDH M W ir =
     defaultRDH\<lparr>triggerOrbit := orbit ir, heartbeatOrbit := orbit ir,
       triggerBC := ucast (bc ir), heartbeatBC := ucast (bc ir),
       triggerType := PhT W, detectorField := getRUDetectorField M, blockLength := 0xFFFF\<rparr>"

definition maxGBTWordsPerPacket :: "RAWDataHeader \<Rightarrow> int" where
  "maxGBTWordsPerPacket rdh =
     (MaxGBTPacketBytes - uint (headerSize rdh)) div GBTPaddedWordLength - 2"

text \<open>The header of the first page of link \<open>il\<close>, for \<open>needed\<close> GBT words.\<close>

definition firstPageRDH ::
  "ChipMapping \<Rightarrow> nat \<Rightarrow> bool \<Rightarrow> RAWDataHeader \<Rightarrow> RUInfo \<Rightarrow> nat \<Rightarrow> int \<Rightarrow> RAWDataHeader" where
  "firstPageRDH M ws imposeMaxPage rdh info il needed =
     (let rdh1 = rdh\<lparr>feeId := RUSW2FEEId M (idSW info) il, linkID := of_nat il,
                   pageCnt := 0, stop := 0\<rparr>;
          msize = pageMemorySize rdh1 needed (int ws)
      in rdh1\<lparr>memorySize := msize, offsetToNext := pageOffsetToNext imposeMaxPage msize\<rparr>)"

text \<open>
  The pieces written for one link and one trigger, with the cable buffers and the page
  count of the link afterwards: the first header and GBT header, the data words and
  further pages, and the trailer of the last packet with the lanes of the link as stopped
  lanes and the packet state \<open>PacketDone\<close>.
\<close>

definition linkChunks ::
  "ChipMapping \<Rightarrow> WireFormat \<Rightarrow> nat \<Rightarrow> bool \<Rightarrow> RAWDataHeader \<Rightarrow> RUInfo \<Rightarrow> byte list \<Rightarrow>
   PayLoadCont list \<Rightarrow> nat \<Rightarrow> 32 word \<Rightarrow> int \<Rightarrow> fault + fillState" where
  "linkChunks M W ws imposeMaxPage rdh info hwids cables il lns ntrig =
     (let ncab = nCablesRU info;
          needed = countGBTWords lns cables ncab;
          rdh0 = firstPageRDH M ws imposeMaxPage rdh info il needed;
          st0 = \<lparr>fcables = cables,
                 fchunks = [RDHChunk rdh0, HeaderChunk (pageCnt rdh0) lns],
                 frdh = rdh0, fneeded = needed, finPacket = 0, fnTriggers = ntrig + 1\<rparr>
      in bindF (fillPages ws imposeMaxPage lns
                  (\<lambda>icab. getGBTHeaderRUType M (ruType info) (hwids ! icab))
                  (maxGBTWordsPerPacket rdh) ncab st0)
           (\<lambda>st. Inr (st\<lparr>fchunks := fchunks st @ [TrailerChunk lns (2 ^ PacketDone W)]\<rparr>)))"

text \<open>The headers among the pieces, in the order written.\<close>

fun chunkRDHs :: "chunk list \<Rightarrow> RAWDataHeader list" where
  "chunkRDHs [] = []"
| "chunkRDHs (RDHChunk rdh # cs) = rdh # chunkRDHs cs"
| "chunkRDHs (_ # cs) = chunkRDHs cs"

text \<open>
  The loop of \<^verbatim>\<open>fillRULinks\<close> over the links \<open>il, il + 1, ...\<close> of the readout unit; links
  that do not exist are skipped. \<open>minPages\<close> is the smallest page count met so far.
\<close>

fun fillLinksFrom ::
  "ChipMapping \<Rightarrow> WireFormat \<Rightarrow> nat \<Rightarrow> bool \<Rightarrow> RAWDataHeader \<Rightarrow> RUInfo \<Rightarrow> nat \<Rightarrow>
   RULink option list \<Rightarrow> RUDecodeData \<Rightarrow> int \<Rightarrow> fault + RUDecodeData \<times> int" where
  "fillLinksFrom M W ws imposeMaxPage rdh info il [] ruData minPages = Inr (ruData, minPages)"
| "fillLinksFrom M W ws imposeMaxPage rdh info il (None # rest) ruData minPages =
     fillLinksFrom M W ws imposeMaxPage rdh info (Suc il) rest ruData minPages"
| "fillLinksFrom M W ws imposeMaxPage rdh info il (Some link # rest) ruData minPages =
     bindF (linkChunks M W ws imposeMaxPage rdh info (cableHWID ruData) (cableData ruData) il
              (lanes link) (nTriggers link))
       (\<lambda>st.
          let link' = link\<lparr>data := addFast (concat (map (chunkBytes W ws) (fchunks st))) (data link),
                          nTriggers := fnTriggers st\<rparr>;
              ruData' = ruData\<lparr>cableData := fcables st, links := (links ruData)[il := Some link']\<rparr>
          in fillLinksFrom M W ws imposeMaxPage rdh info (Suc il) rest ruData'
               (if minPages > nTriggers link' then nTriggers link' else minPages))"

definition dummyNPages :: int where
  "dummyNPages = 0xFFFFFF"

text \<open>
  \<^verbatim>\<open>fillRULinks\<close> for the readout unit in container \<open>ruData\<close>: returns the container and
  the number of pages in the link with the smallest amount of pages.
\<close>

definition fillRULinks ::
  "ChipMapping \<Rightarrow> WireFormat \<Rightarrow> nat \<Rightarrow> bool \<Rightarrow> InteractionRecord \<Rightarrow> RUDecodeData \<Rightarrow>
   fault + RUDecodeData \<times> int" where
  "fillRULinks M W ws imposeMaxPage ir ruData =
     (case ruInfo ruData of
        None \<Rightarrow> Inl NullPointer
      | Some info \<Rightarrow>
          if nCablesRU info > length (cableData ruData) \<or>
             nCablesRU info > length (cableHWID ruData)
          then Inl OutOfRange
          else
            bindF (fillLinksFrom M W ws imposeMaxPage (triggerRDH M W ir) info 0
                     (links ruData) (ruData\<lparr>nCables := nCablesRU info\<rparr>) dummyNPages)
              (\<lambda>(ruData', minPages).
                 Inr ((clearTrigger ruData')\<lparr>nChipsFired := 0\<rparr>,
                      if minPages = dummyNPages then 0 else minPages)))"

section \<open>The reader\<close>

text \<open>\<^verbatim>\<open>struct RawDecodingStat\<close>: the global decoding statistics.\<close>

record RawDecodingStat =
  nPagesProcessed :: nat
  nRUsProcessed :: nat
  nBytesProcessed :: nat
  nNonEmptyChips :: nat
  nHitsDecoded :: nat

text \<open>
  The data members of \<^verbatim>\<open>RawPixelReader\<close> (without the input file, the timer and the
  verbosity). \<open>mRUDecodeVec\<close> and \<open>mRUEntry\<close> are arrays of \<^verbatim>\<open>ChipMappingITS::getNRUs()\<close>
  elements, whatever the mapping of the reader.
\<close>

record RawPixelReader =
  mCurRUDecodeID :: int
  mRawBuffer :: PayLoadCont
  mRUDecodeVec :: "RUDecodeData list"
  mRUEntry :: "int list"
  mNRUs :: nat
  mNLinks :: nat
  mMinTriggersToCache :: int
  mMinTriggersCached :: int
  mDecodingStat :: RawDecodingStat
  mPadding128 :: bool
  mImposeMaxPage :: bool
  mGBTWordSize :: nat
  mInteractionRecord :: InteractionRecord
  mInteractionRecordHB :: InteractionRecord
  mTrigger :: "32 word"

text \<open>
  A reader after its constructor: no readout unit and no link is known. The number
  \<open>nRUsITS\<close> of elements of the two arrays is \<^verbatim>\<open>ChipMappingITS::getNRUs()\<close>, a constant of
  \<^verbatim>\<open>ChipMappingITS.h\<close> (not part of the reader's file) and a parameter of the model.
\<close>

definition newReader :: "nat \<Rightarrow> RawPixelReader" where
  "newReader nRUsITS = \<lparr>mCurRUDecodeID = - 1, mRawBuffer = emptyCont,
     mRUDecodeVec = replicate nRUsITS newRUDecodeData,
     mRUEntry = replicate nRUsITS (- 1),
     mNRUs = 0, mNLinks = 0,
     mMinTriggersToCache = NCRUPagesPerSuperpage + 10, mMinTriggersCached = 0,
     mDecodingStat = \<lparr>nPagesProcessed = 0, nRUsProcessed = 0, nBytesProcessed = 0,
       nNonEmptyChips = 0, nHitsDecoded = 0\<rparr>,
     mPadding128 = True, mImposeMaxPage = True, mGBTWordSize = nat GBTPaddedWordLength,
     mInteractionRecord = \<lparr>bc = 0, orbit = 0\<rparr>,
     mInteractionRecordHB = \<lparr>bc = 0, orbit = 0\<rparr>, mTrigger = 0\<rparr>"

definition setPadding128 :: "bool \<Rightarrow> RawPixelReader \<Rightarrow> RawPixelReader" where
  "setPadding128 v rd =
     rd\<lparr>mPadding128 := v,
        mGBTWordSize := (if v then nat GBTPaddedWordLength else nat GBTWordLength)\<rparr>"

definition imposeMaxPage :: "bool \<Rightarrow> RawPixelReader \<Rightarrow> RawPixelReader" where
  "imposeMaxPage v rd = rd\<lparr>mImposeMaxPage := v\<rparr>"

definition setMinTriggersToCache :: "int \<Rightarrow> RawPixelReader \<Rightarrow> RawPixelReader" where
  "setMinTriggersToCache n rd =
     rd\<lparr>mMinTriggersToCache :=
          (if n > NCRUPagesPerSuperpage then n else NCRUPagesPerSuperpage + 1)\<rparr>"

definition getMinTriggersToCache :: "RawPixelReader \<Rightarrow> int" where
  "getMinTriggersToCache rd = mMinTriggersToCache rd"

text \<open>
  \<^verbatim>\<open>getCreateRUDecode(ruSW)\<close>: the container of the readout unit \<open>ruSW\<close>, created in the
  next free slot if it does not exist. The model returns the slot.
\<close>

definition getCreateRUDecode ::
  "ChipMapping \<Rightarrow> nat \<Rightarrow> RawPixelReader \<Rightarrow> fault + nat \<times> RawPixelReader" where
  "getCreateRUDecode M ruSW rd =
     (if \<not> ruSW < getNRUs M then Inl AssertFailed
      else if \<not> ruSW < length (mRUEntry rd) then Inl OutOfRange
      else if mRUEntry rd ! ruSW < 0 then
        (let slot = mNRUs rd in
         if \<not> slot < length (mRUDecodeVec rd) then Inl OutOfRange
         else Inr (slot,
           rd\<lparr>mRUEntry := (mRUEntry rd)[ruSW := int slot],
              mNRUs := mNRUs rd + 1,
              mRUDecodeVec := (mRUDecodeVec rd)
                [slot := (mRUDecodeVec rd ! slot)\<lparr>ruInfo := Some (getRUInfoSW M ruSW)\<rparr>]\<rparr>))
      else if \<not> nat (mRUEntry rd ! ruSW) < length (mRUDecodeVec rd) then Inl OutOfRange
      else Inr (nat (mRUEntry rd ! ruSW), rd))"

section \<open>Encoding: digits to raw data\<close>

text \<open>
  The containers are booked in \<^verbatim>\<open>digits2raw\<close> for the readout units \<open>r, ...\<close>: a unit
  without any link gets link 0 with all the cables of its type.
\<close>

fun bookContainers :: "ChipMapping \<Rightarrow> nat list \<Rightarrow> RawPixelReader \<Rightarrow> fault + RawPixelReader" where
  "bookContainers M [] rd = Inr rd"
| "bookContainers M (r # rest) rd =
     bindF (getCreateRUDecode M r rd)
       (\<lambda>(slot, rd1).
          let ruData = mRUDecodeVec rd1 ! slot;
              nLinks = length (filter (\<lambda>l. l \<noteq> None) (links ruData));
              rd2 = rd1\<lparr>mNLinks := mNLinks rd1 + nLinks\<rparr>
          in if nLinks = 0 then
               (case ruInfo ruData of
                  None \<Rightarrow> Inl NullPointer
                | Some info \<Rightarrow>
                    if links ruData = [] then Inl OutOfRange
                    else
                      bookContainers M rest
                        (rd2\<lparr>mRUDecodeVec := (mRUDecodeVec rd2)
                               [slot := ruData\<lparr>links := (links ruData)
                                  [0 := Some (newRULink\<lparr>lanes := getCablesOnRUType M (ruType info)\<rparr>)]\<rparr>],
                             mNLinks := mNLinks rd2 + 1\<rparr>))
             else bookContainers M rest rd2)"

text \<open>
  The loop placing the digits into the chip buffers. The state is the reader, the id of
  the chip in work (\<open>0xffff\<close> at first) and the chip buffer in work (a container and an
  index into its \<open>chipsData\<close>, null at first).
\<close>

fun placeDigits ::
  "ChipMapping \<Rightarrow> nat \<Rightarrow> nat \<Rightarrow> Digit list \<Rightarrow> RawPixelReader \<times> nat \<times> (nat \<times> nat) option \<Rightarrow>
   fault + RawPixelReader \<times> nat \<times> (nat \<times> nat) option" where
  "placeDigits M ruSWMin ruSWMax [] s = Inr s"
| "placeDigits M ruSWMin ruSWMax (dig # rest) (rd, curChipID, cur) =
     (let emplace = (\<lambda>rd' cur'.
            case cur' of
              None \<Rightarrow> Inl NullPointer
            | Some (r, k) \<Rightarrow>
                let ruData = mRUDecodeVec rd' ! r;
                    chip = chipsData ruData ! k
                in Inr (rd'\<lparr>mRUDecodeVec := (mRUDecodeVec rd')
                         [r := ruData\<lparr>chipsData := (chipsData ruData)
                            [k := chip\<lparr>pixels := pixels chip @ [(row dig, col dig)]\<rparr>]\<rparr>]\<rparr>))
      in if curChipID \<noteq> chipIndex dig then
           (let chInfo = getChipInfoSW M (chipIndex dig) in
            if ru chInfo < ruSWMin \<or> ru chInfo > ruSWMax
            then placeDigits M ruSWMin ruSWMax rest (rd, curChipID, cur)
            else if \<not> ru chInfo < length (mRUDecodeVec rd) then Inl OutOfRange
            else
              (let r = ru chInfo;
                   ruData = mRUDecodeVec rd ! r;
                   k = nChipsFired ruData
               in if \<not> k < length (chipsData ruData) then Inl OutOfRange
                  else
                    (let ruData' = ruData\<lparr>nChipsFired := k + 1,
                           chipsData := (chipsData ruData)
                             [k := (chipsData ruData ! k)\<lparr>chipID := chipIdOnRU (chOnRU chInfo)\<rparr>]\<rparr>;
                         rd' = rd\<lparr>mCurRUDecodeID := int r,
                                 mRUDecodeVec := (mRUDecodeVec rd)[r := ruData']\<rparr>
                     in bindF (emplace rd' (Some (r, k)))
                          (\<lambda>rd''. placeDigits M ruSWMin ruSWMax rest
                                     (rd'', chipIndex dig, Some (r, k))))))
         else bindF (emplace rd cur)
                (\<lambda>rd''. placeDigits M ruSWMin ruSWMax rest (rd'', curChipID, cur)))"

text \<open>
  \<^verbatim>\<open>convertEmptyChips(fromChip, uptoChip)\<close> for the container \<open>ruData\<close>: an empty-chip record
  for every chip without data, in the buffer of its cable.
\<close>

fun convertEmptyChips ::
  "ChipMapping \<Rightarrow> AlpideCoder \<Rightarrow> InteractionRecord \<Rightarrow> RUInfo \<Rightarrow> nat list \<Rightarrow> RUDecodeData \<Rightarrow>
   fault + RUDecodeData" where
  "convertEmptyChips M C ir info [] ruData = Inr ruData"
| "convertEmptyChips M C ir info (chipIDSW # rest) ruData =
     (let chip = getChipOnRUInfo M (ruType info) chipIDSW in
      if \<not> cableSW chip < length (cableData ruData) \<or>
         \<not> cableSW chip < length (cableHWID ruData)
      then Inl OutOfRange
      else convertEmptyChips M C ir info rest
             (ruData\<lparr>cableHWID := (cableHWID ruData)[cableSW chip := cableHW chip],
                     cableData := (cableData ruData)
                       [cableSW chip :=
                          addFast (addEmptyChip C (chipOnModuleHW chip) (bc ir))
                            (cableData ruData ! cableSW chip)]\<rparr>))"

text \<open>The order of the pixels of a chip before encoding: by row, then by column.\<close>

definition pixelLess :: "nat \<times> nat \<Rightarrow> nat \<times> nat \<Rightarrow> bool" where
  "pixelLess lhs rhs =
     (if fst lhs < fst rhs then True
      else if fst lhs > fst rhs then False
      else snd lhs < snd rhs)"

fun insertPixel :: "nat \<times> nat \<Rightarrow> (nat \<times> nat) list \<Rightarrow> (nat \<times> nat) list" where
  "insertPixel p [] = [p]"
| "insertPixel p (q # qs) = (if pixelLess q p then q # insertPixel p qs else p # q # qs)"

definition sortPixels :: "(nat \<times> nat) list \<Rightarrow> (nat \<times> nat) list" where
  "sortPixels ps = foldr insertPixel ps []"

text \<open>\<^verbatim>\<open>convertChip(chipData)\<close>: the digits of one chip to the buffer of its cable.\<close>

definition convertChip ::
  "ChipMapping \<Rightarrow> AlpideCoder \<Rightarrow> InteractionRecord \<Rightarrow> RUInfo \<Rightarrow> ChipPixelData \<Rightarrow> RUDecodeData \<Rightarrow>
   fault + RUDecodeData" where
  "convertChip M C ir info chipData ruData =
     (let chip = getChipOnRUInfo M (ruType info) (chipID chipData) in
      if \<not> cableSW chip < length (cableData ruData) \<or>
         \<not> cableSW chip < length (cableHWID ruData)
      then Inl OutOfRange
      else Inr
        (ruData\<lparr>cableHWID := (cableHWID ruData)[cableSW chip := cableHW chip],
                cableData := (cableData ruData)
                  [cableSW chip :=
                     addFast (encodeChip C (chipData\<lparr>pixels := sortPixels (pixels chipData)\<rparr>)
                                (chipOnModuleHW chip) (bc ir))
                       (cableData ruData ! cableSW chip)]\<rparr>))"

text \<open>
  The loop over the fired chips \<open>ich, ...\<close> of a container: empty-chip records up to the
  chip, the chip itself, and the chip buffer is cleared. Returns the container and the
  next chip to process.
\<close>

fun convertFiredChips ::
  "ChipMapping \<Rightarrow> AlpideCoder \<Rightarrow> InteractionRecord \<Rightarrow> RUInfo \<Rightarrow> nat list \<Rightarrow> nat \<Rightarrow> RUDecodeData \<Rightarrow>
   fault + RUDecodeData \<times> nat" where
  "convertFiredChips M C ir info [] next2Proc ruData = Inr (ruData, next2Proc)"
| "convertFiredChips M C ir info (ich # rest) next2Proc ruData =
     (if \<not> ich < length (chipsData ruData) then Inl OutOfRange
      else
        (let chipData = chipsData ruData ! ich in
         bindF (convertEmptyChips M C ir info [next2Proc..<chipID chipData] ruData)
           (\<lambda>ruData1.
              bindF (convertChip M C ir info chipData ruData1)
                (\<lambda>ruData2.
                   convertFiredChips M C ir info rest (chipID chipData + 1)
                     (ruData2\<lparr>chipsData := (chipsData ruData2)[ich := clearChip chipData]\<rparr>)))))"

text \<open>
  The loop of \<^verbatim>\<open>digits2raw\<close> over the readout units: the element \<open>mCurRUDecodeID\<close> of
  \<open>mRUDecodeVec\<close> is converted and flushed to its links.
\<close>

fun convertRUs ::
  "ChipMapping \<Rightarrow> AlpideCoder \<Rightarrow> WireFormat \<Rightarrow> nat list \<Rightarrow> RawPixelReader \<Rightarrow> int \<Rightarrow>
   fault + RawPixelReader \<times> int" where
  "convertRUs M C W [] rd minPages = Inr (rd, minPages)"
| "convertRUs M C W (r # rest) rd minPages =
     (if \<not> r < length (mRUDecodeVec rd) then Inl OutOfRange
      else
        (let ruData = mRUDecodeVec rd ! r; ir = mInteractionRecord rd in
         case ruInfo ruData of
           None \<Rightarrow> Inl NullPointer
         | Some info \<Rightarrow>
             bindF (convertFiredChips M C ir info [0..<nChipsFired ruData] 0 ruData)
               (\<lambda>(ruData1, next2Proc).
                  bindF (convertEmptyChips M C ir info
                           [next2Proc..<getNChipsOnRUType M (ruType info)] ruData1)
                    (\<lambda>ruData2.
                       bindF (fillRULinks M W (mGBTWordSize rd) (mImposeMaxPage rd) ir ruData2)
                         (\<lambda>(ruData3, minPageRU).
                            convertRUs M C W rest
                              (rd\<lparr>mCurRUDecodeID := int r + 1,
                                  mRUDecodeVec := (mRUDecodeVec rd)[r := ruData3]\<rparr>)
                              (if minPageRU < minPages then minPageRU else minPages))))))"

text \<open>
  The loop of \<^verbatim>\<open>digits2raw\<close> that books the containers,
  \<^verbatim>\<open>for (uint8_t ru = ruSWMin; ru <= ruSWMax; ru++)\<close>. The counter has 8 bits: when
  \<open>ruSWMax\<close> is 255 the test never fails, the counter goes on from 0 after 255 and the loop
  does not end. Every unit is met for the first time among \<open>ruSWMin, ..., 255, 0, ...,
  ruSWMin - 1\<close>; a later visit of a unit finds its container and its links and only adds
  to \<open>mNLinks\<close>.
\<close>

definition bookLoop :: "ChipMapping \<Rightarrow> 8 word \<Rightarrow> 8 word \<Rightarrow> RawPixelReader \<Rightarrow> fault + RawPixelReader" where
  "bookLoop M ruSWMin ruSWMax rd =
     (if ruSWMax = 0xFF
      then bindF (bookContainers M ([unat ruSWMin..<256] @ [0..<unat ruSWMin]) rd)
             (\<lambda>rd'. Inl Diverges)
      else bookContainers M [unat ruSWMin..<Suc (unat ruSWMax)] rd)"

text \<open>
  \<^verbatim>\<open>digits2raw(digiVec, from, ndig, bcData, ruSWMin, ruSWMax)\<close>: converts the digits of one
  trigger to raw data in the link buffers and returns the number of pages in the link
  with the smallest amount of pages.
\<close>

definition digits2raw ::
  "ChipMapping \<Rightarrow> AlpideCoder \<Rightarrow> WireFormat \<Rightarrow> Digit list \<Rightarrow> nat \<Rightarrow> nat \<Rightarrow> InteractionRecord \<Rightarrow>
   8 word \<Rightarrow> 8 word \<Rightarrow> RawPixelReader \<Rightarrow> fault + RawPixelReader \<times> int" where
  "digits2raw M C W digiVec from ndig bcData ruSWMin ruSWMax0 rd =
     (let nDigTot = length digiVec in
      if \<not> from < nDigTot then Inl AssertFailed
      else
        (let last = (if from + ndig \<le> nDigTot then from + ndig else nDigTot);
             rd1 = rd\<lparr>mInteractionRecord := bcData\<rparr>;
             ruSWMax = (if ruSWMax0 < (of_nat (getNRUs M) :: 8 word) then ruSWMax0
                        else of_nat (getNRUs M) - 1);
             rus = [unat ruSWMin..<Suc (unat ruSWMax)]
         in bindF (if int (mNRUs rd1) < int (unat ruSWMax) - int (unat ruSWMin)
                   then bookLoop M ruSWMin ruSWMax rd1 else Inr rd1)
              (\<lambda>rd2.
                 bindF (placeDigits M (unat ruSWMin) (unat ruSWMax)
                          (take (last - from) (drop from digiVec)) (rd2, 0xFFFF, None))
                   (\<lambda>(rd3, curChipID, cur).
                      convertRUs M C W rus (rd3\<lparr>mCurRUDecodeID := int (unat ruSWMin)\<rparr>) 0xFFFFFF))))"

section \<open>Notions used in the proofs about the link buffers\<close>

text \<open>
  The state of the page loop of a link, related to the number \<open>N\<close> of GBT words the link
  needs and the number \<open>maxW\<close> of words of a full packet: the headers written so far are
  numbered from zero, only the last one can have \<open>stop\<close> set, every page before the
  current one is full, and a header with \<open>stop\<close> set is followed by fewer words than a
  full packet.
\<close>

definition pagesInv :: "int \<Rightarrow> int \<Rightarrow> fillState \<Rightarrow> bool" where
  "pagesInv maxW N st \<longleftrightarrow>
     (let rs = chunkRDHs (fchunks st) in
      rs \<noteq> [] \<and> frdh st = last rs \<and>
      (\<forall>i<length rs. pageCnt (rs ! i) = of_nat i) \<and>
      (\<forall>i. Suc i < length rs \<longrightarrow> stop (rs ! i) = 0) \<and>
      stop (rs ! 0) = 0 \<and>
      0 \<le> finPacket st \<and> finPacket st \<le> maxW \<and>
      (stop (last rs) \<noteq> 0 \<longrightarrow> stop (last rs) = 1 \<and> finPacket st + fneeded st < maxW) \<and>
      (1 < length rs \<and> stop (last rs) = 0 \<longrightarrow> maxW \<le> finPacket st + fneeded st) \<and>
      (1 < length rs \<longrightarrow> 0 < finPacket st + fneeded st) \<and>
      N = (int (length rs) - 1) * maxW + finPacket st + fneeded st)"

text \<open>The GBT words still to be written for the unused bytes of the cables \<open>L\<close>.\<close>

definition wordsLeft :: "PayLoadCont \<Rightarrow> nat" where
  "wordsLeft c = (getUnusedSize c + 8) div 9"

definition remaining :: "32 word \<Rightarrow> nat list \<Rightarrow> PayLoadCont list \<Rightarrow> nat" where
  "remaining lns L cables =
     sum_list (map (\<lambda>icab. if servesLane lns icab then wordsLeft (cables ! icab) else 0) L)"

section \<open>An instance of the parameters\<close>

text \<open>
  A small detector for the concrete examples: two readout units of type 0, each with one
  cable and one chip, and one link per unit.
\<close>

definition demoMapping :: ChipMapping where
  "demoMapping = \<lparr>getNRUs = 2,
     getRUInfoSW = (\<lambda>r. \<lparr>idSW = r, idHW = of_nat r, ruType = 0, nCablesRU = 1\<rparr>),
     RUSW2FEEId = (\<lambda>r il. of_nat (256 * il + r)),
     FEEId2RUSW = (\<lambda>f. unat (f AND 0xFF)),
     getCablesOnRUType = (\<lambda>t. 1),
     getGBTHeaderRUType = (\<lambda>t hw. 0x20 OR hw),
     getRUDetectorField = 0,
     getChipInfoSW = (\<lambda>c. \<lparr>ru = c, chOnRU = \<lparr>chipIdOnRU = 0, cableSW = 0, cableHW = 0,
        chipOnModuleHW = 0\<rparr>\<rparr>),
     getChipOnRUInfo = (\<lambda>t k. \<lparr>chipIdOnRU = k, cableSW = 0, cableHW = 0, chipOnModuleHW = 0\<rparr>),
     getNChipsOnRUType = (\<lambda>t. 1),
     cableHW2SW = (\<lambda>t hw. unat (hw AND 0x1F)),
     getGlobalChipID = (\<lambda>chOnModule hw info. idSW info)\<rparr>"

text \<open>Little-endian bytes of the fields of a header, and the fields read back.\<close>

definition le16 :: "16 word \<Rightarrow> byte list" where
  "le16 w = [ucast w, ucast (drop_bit 8 w)]"

definition le32 :: "32 word \<Rightarrow> byte list" where
  "le32 w = [ucast w, ucast (drop_bit 8 w), ucast (drop_bit 16 w), ucast (drop_bit 24 w)]"

definition le64 :: "64 word \<Rightarrow> byte list" where
  "le64 w = [ucast w, ucast (drop_bit 8 w), ucast (drop_bit 16 w), ucast (drop_bit 24 w),
     ucast (drop_bit 32 w), ucast (drop_bit 40 w), ucast (drop_bit 48 w), ucast (drop_bit 56 w)]"

definition rd16 :: "byte list \<Rightarrow> nat \<Rightarrow> 16 word" where
  "rd16 bs k = ucast (bs ! k) OR push_bit 8 (ucast (bs ! (k + 1)))"

definition rd32 :: "byte list \<Rightarrow> nat \<Rightarrow> 32 word" where
  "rd32 bs k = ucast (bs ! k) OR push_bit 8 (ucast (bs ! (k + 1))) OR
     push_bit 16 (ucast (bs ! (k + 2))) OR push_bit 24 (ucast (bs ! (k + 3)))"

definition rd64 :: "byte list \<Rightarrow> nat \<Rightarrow> 64 word" where
  "rd64 bs k = ucast (rd32 bs k) OR push_bit 32 (ucast (rd32 bs (k + 4)))"

text \<open>
  The layout of the version 4 header: eight little-endian 64-bit words, with the fields
  in the order of the record.
\<close>

definition rdhV4Bytes :: "RAWDataHeader \<Rightarrow> byte list" where
  "rdhV4Bytes r =
     [version r, headerSize r] @ le16 (blockLength r) @ le16 (feeId r) @ [priority r, zero0 r] @
     le16 (offsetToNext r) @ le16 (memorySize r) @ [linkID r, packetCounter r] @
     le16 (ucast (cruID r)) @
     le32 (triggerOrbit r) @ le32 (heartbeatOrbit r) @
     le64 (zero1 r) @
     le16 (ucast (triggerBC r) OR push_bit 12 (ucast (zero41 r))) @
     le16 (ucast (heartbeatBC r) OR push_bit 12 (ucast (zero42 r))) @ le32 (triggerType r) @
     le64 (word5 r) @
     le16 (detectorField r) @ le16 (par r) @ [stop r] @ le16 (pageCnt r) @ [zero6 r] @
     replicate 8 0"

definition rdhV4At :: "byte list \<Rightarrow> RAWDataHeader" where
  "rdhV4At bs = \<lparr>version = bs ! 0, headerSize = bs ! 1, blockLength = rd16 bs 2,
     feeId = rd16 bs 4, priority = bs ! 6, zero0 = bs ! 7, offsetToNext = rd16 bs 8,
     memorySize = rd16 bs 10, linkID = bs ! 12, packetCounter = bs ! 13,
     cruID = ucast (rd16 bs 14), triggerOrbit = rd32 bs 16, heartbeatOrbit = rd32 bs 20,
     zero1 = rd64 bs 24, triggerBC = ucast (rd16 bs 32), zero41 = ucast (drop_bit 12 (rd16 bs 32)),
     heartbeatBC = ucast (rd16 bs 34), zero42 = ucast (drop_bit 12 (rd16 bs 34)),
     triggerType = rd32 bs 36, word5 = rd64 bs 40, detectorField = rd16 bs 48,
     par = rd16 bs 50, stop = bs ! 52, pageCnt = rd16 bs 53, zero6 = bs ! 55\<rparr>"

text \<open>
  The instance of the byte images for the concrete examples: the version 4 header, and
  GBT words with the flag in byte 9 (\<open>0xe0\<close> for a header, \<open>0xf0\<close> for a trailer, the
  cable in the low bits for a data word), the lanes in bytes 0 to 3, the packet id of a
  header in bytes 4 and 5, the lane time-outs of a trailer in bytes 4 to 7 and its packet
  state in byte 8. \<open>PhT\<close> is bit 4 and \<open>SOT\<close> bit 7 of the trigger type.
\<close>

definition demoWire :: WireFormat where
  "demoWire = \<lparr>rdhBytes = rdhV4Bytes, rdhAt = rdhV4At,
     putOffsetToNext = (\<lambda>v bs. bs[8 := ucast v, 9 := ucast (drop_bit 8 v)]),
     gbtHeaderW8 = (\<lambda>pid lns. le32 lns @ le16 pid @ [0, 0, 0, 0xE0] @ replicate 6 0),
     gbtTrailerW8 = (\<lambda>lns st. le32 lns @ le32 0 @ [of_nat st, 0xF0] @ replicate 6 0),
     isDataHeader = (\<lambda>bs. bs ! 9 = 0xE0),
     isDataTrailer = (\<lambda>bs. bs ! 9 = 0xF0),
     getPacketID = (\<lambda>bs. rd16 bs 4),
     getLanes = (\<lambda>bs. rd32 bs 0),
     getCableID = (\<lambda>bs. bs ! 9 AND 0x1F),
     getLanesStop = (\<lambda>bs. rd32 bs 0),
     getLanesTimeout = (\<lambda>bs. rd32 bs 4),
     getPacketState = (\<lambda>bs. unat (bs ! 8)),
     PacketDone = 0, PhT = 0x10, SOT = 0x80\<rparr>"

section \<open>Notions used in the proofs about the encoder\<close>

text \<open>
  The per-trigger state of a container \<open>d\<close> is empty, \<open>d0\<close> being the container before
  the call: no cables and no fired chips are recorded, the buffers of the cables of the
  readout unit are empty, and so are all cable buffers if the mapping places every chip on
  a cable of the unit and the other buffers were empty before.
\<close>

definition triggerCleared :: "ChipMapping \<Rightarrow> RUDecodeData \<Rightarrow> RUDecodeData \<Rightarrow> bool" where
  "triggerCleared M d0 d \<longleftrightarrow>
     (\<exists>info. ruInfo d = Some info \<and> nCables d = 0 \<and> nChipsFired d = 0 \<and>
        length (cableData d) = length (cableData d0) \<and>
        (\<forall>i<nCablesRU info. cableData d ! i = emptyCont) \<and>
        ((\<forall>k. cableSW (getChipOnRUInfo M (ruType info) k) < nCablesRU info) \<and>
         (\<forall>i. nCablesRU info \<le> i \<and> i < length (cableData d0) \<longrightarrow> cableData d0 ! i = emptyCont)
         \<longrightarrow> (\<forall>i<length (cableData d). cableData d ! i = emptyCont)))"

text \<open>
  A small chip coder for the concrete examples: a chip with hits is a header byte
  \<open>0xa0 + chip\<close>, the bunch crossing, two bytes per hit and the trailer \<open>0xb0\<close>; a chip
  without hits is \<open>0xe0 + chip\<close> and the bunch crossing; a zero byte ends the data of a
  cable. \<open>demoDecodeChip\<close> skips chips without hits and returns the next chip with hits.
\<close>

fun demoHits :: "byte list \<Rightarrow> (nat \<times> nat) list \<times> nat" where
  "demoHits [] = ([], 0)"
| "demoHits [r] = ([], 1)"
| "demoHits (r # c # bs) =
     (if r = 0xB0 then ([], 1)
      else (case demoHits bs of (hs, n) \<Rightarrow> ((unat r, unat c) # hs, n + 2)))"

fun demoDecodeChip :: "byte list \<Rightarrow> int \<times> ChipPixelData \<times> nat" where
  "demoDecodeChip [] = (0, emptyChip, 0)"
| "demoDecodeChip [b] = (0, emptyChip, 1)"
| "demoDecodeChip (b # bcb # bs) =
     (if b = 0 then (0, emptyChip, Suc (Suc (length bs)))
      else if b AND 0xF0 = 0xE0 then
        (case demoDecodeChip bs of (res, chip, n) \<Rightarrow> (res, chip, n + 2))
      else if b AND 0xF0 = 0xA0 then
        (case demoHits bs of (hs, n) \<Rightarrow>
           (int (n + 2), emptyChip\<lparr>chipID := unat (b AND 0x0F), pixels := hs\<rparr>, n + 2))
      else (- 1, emptyChip, 1))"

definition demoCoder :: AlpideCoder where
  "demoCoder = \<lparr>
     encodeChip = (\<lambda>chip hw bcv.
        [0xA0 OR of_nat hw, ucast bcv] @
        concat (map (\<lambda>(r, c). [of_nat r, of_nat c]) (pixels chip)) @ [0xB0]),
     addEmptyChip = (\<lambda>hw bcv. [0xE0 OR of_nat hw, ucast bcv]),
     decodeChip = demoDecodeChip,
     isChipHeaderOrEmpty = (\<lambda>b. b AND 0xF0 = 0xA0 \<or> b AND 0xF0 = 0xE0)\<rparr>"

definition demoIR :: InteractionRecord where "demoIR = \<lparr>bc = 42, orbit = 100\<rparr>"

text \<open>
  The number of times the chip changes along the chip indices \<open>xs\<close> of the digits, after
  the chip \<open>c\<close>: an upper bound of the number of chip buffers \<^verbatim>\<open>digits2raw\<close> takes for them.
\<close>

fun chipRuns :: "nat \<Rightarrow> nat list \<Rightarrow> nat" where
  "chipRuns c [] = 0"
| "chipRuns c (x # xs) = (if x = c then chipRuns c xs else Suc (chipRuns x xs))"

text \<open>
  A container whose data can be converted and written to its link: the readout unit is
  known and has no more cables than the container, the arrays have their sizes, no cable
  buffer was read yet, and there is no link but link 0 (the single link \<^verbatim>\<open>digits2raw\<close>
  imposes).
\<close>

definition encodable :: "RUDecodeData \<Rightarrow> bool" where
  "encodable d \<longleftrightarrow>
     (\<exists>info. ruInfo d = Some info \<and> nCablesRU info \<le> nat MaxCablesPerRU) \<and>
     length (cableData d) = nat MaxCablesPerRU \<and> length (cableHWID d) = nat MaxCablesPerRU \<and>
     length (chipsData d) = nat MaxChipsPerRU \<and> nChipsFired d \<le> nat MaxChipsPerRU \<and>
     (\<forall>c\<in>set (cableData d). ptr c = 0) \<and>
     (\<forall>il. 0 < il \<and> il < length (links d) \<longrightarrow> links d ! il = None)"

text \<open>
  A reader ready to encode a trigger for the readout units \<open>a, ..., b\<close>: their containers
  are booked, can be converted and have no fired chip.
\<close>

definition encReady :: "nat \<Rightarrow> nat \<Rightarrow> RawPixelReader \<Rightarrow> bool" where
  "encReady a b rd \<longleftrightarrow>
     b < length (mRUDecodeVec rd) \<and> \<not> int (mNRUs rd) < int b - int a \<and>
     (\<forall>r. a \<le> r \<and> r \<le> b \<longrightarrow>
        encodable (mRUDecodeVec rd ! r) \<and> nChipsFired (mRUDecodeVec rd ! r) = 0)"

text \<open>A reader as its constructor leaves the containers, with arrays of \<open>n\<close> elements.\<close>

definition freshReader :: "nat \<Rightarrow> RawPixelReader \<Rightarrow> bool" where
  "freshReader n rd \<longleftrightarrow>
     mNRUs rd = 0 \<and> mRUEntry rd = replicate n (- 1) \<and>
     mRUDecodeVec rd = replicate n newRUDecodeData"

text \<open>
  What the conversion of the chips keeps of a container: the unit, the links, the
  number of fired chips, the sizes of the arrays, and that no cable buffer was read.
\<close>

definition keepsShape :: "RUDecodeData \<Rightarrow> RUDecodeData \<Rightarrow> bool" where
  "keepsShape d d' \<longleftrightarrow>
     ruInfo d' = ruInfo d \<and> links d' = links d \<and> nChipsFired d' = nChipsFired d \<and>
     length (cableData d') = length (cableData d) \<and>
     length (cableHWID d') = length (cableHWID d) \<and>
     length (chipsData d') = length (chipsData d) \<and>
     ((\<forall>c\<in>set (cableData d). ptr c = 0) \<longrightarrow> (\<forall>c\<in>set (cableData d'). ptr c = 0))"

section \<open>Decoding: caching the data of the links\<close>

text \<open>
  The reader looks at memory through raw pointers: at the read pointer of a buffer it
  reads a header of \<open>sizeofRDH\<close> bytes or a GBT word, without a check that the bytes are
  within the data of the buffer. In the model the memory of a buffer is its data followed
  by \<open>slack\<close>, the bytes found in memory behind the data; a read or write that is not
  within this memory is a fault. The reader is modelled without an input file, as after
  its constructor: \<^verbatim>\<open>loadInput\<close> returns 0 and leaves the buffer alone, the raw data are
  those placed into \<open>mRawBuffer\<close>.
\<close>

definition readRDH :: "WireFormat \<Rightarrow> byte list \<Rightarrow> nat \<Rightarrow> fault + RAWDataHeader" where
  "readRDH W mem p =
     (if p + nat sizeofRDH \<le> length mem
      then Inr (rdhAt W (take (nat sizeofRDH) (drop p mem))) else Inl OutOfRange)"

definition readGBT :: "byte list \<Rightarrow> nat \<Rightarrow> fault + byte list" where
  "readGBT mem p =
     (if p + nat GBTWordLength \<le> length mem
      then Inr (take (nat GBTWordLength) (drop p mem)) else Inl OutOfRange)"

text \<open>\<^verbatim>\<open>isRDHHeuristic\<close>: the heuristic check that a header is indeed a header.\<close>

definition isRDHHeuristic :: "RAWDataHeader \<Rightarrow> bool" where
  "isRDHHeuristic rdh =
     (if uint (headerSize rdh) \<noteq> sizeofRDH \<or> zero0 rdh \<noteq> 0 \<or> zero1 rdh \<noteq> 0 \<or>
         zero41 rdh \<noteq> 0 \<or> zero42 rdh \<noteq> 0 \<or> word5 rdh \<noteq> 0 \<or> zero6 rdh \<noteq> 0
      then False else True)"

text \<open>
  \<^verbatim>\<open>findNextRDH(buffer)\<close>: the read pointer is advanced by one padded GBT word at a time
  until the bytes at the pointer pass the heuristic check or the buffer is used up.
  Returns \<open>goodRDH\<close> and the buffer.
\<close>

function findNextRDH :: "WireFormat \<Rightarrow> byte list \<Rightarrow> PayLoadCont \<Rightarrow> fault + bool \<times> PayLoadCont" where
  "findNextRDH W slack buffer =
     (if isEmpty buffer then Inr (False, buffer)
      else
        (let buffer' = setPtr (ptr buffer + nat GBTPaddedWordLength) buffer in
         if isEmpty buffer' then Inr (False, buffer')
         else
           (case readRDH W (buf buffer' @ slack) (ptr buffer') of
              Inl e \<Rightarrow> Inl e
            | Inr rdh \<Rightarrow>
                if isRDHHeuristic rdh then Inr (True, buffer')
                else findNextRDH W slack buffer')))"
  by pat_completeness auto
termination
  by (relation "measure (\<lambda>(W, slack, buffer). length (buf buffer) - ptr buffer)")
     (auto simp: isEmpty_def setPtr_def GBTPaddedWordLength_def)

declare findNextRDH.simps [simp del]

text \<open>
  The part of the loop of \<^verbatim>\<open>cacheLinksData\<close> that stores one page: \<open>rdh\<close> is the header the
  loop looks at and \<open>p\<close> the position in the raw buffer the page is copied from. The
  page goes to the link \<open>linkID\<close> of the readout unit of \<open>feeId\<close>; \<open>enough\<close> lists the links
  flagged to have enough triggers and \<open>nLEnough\<close> is their number.
\<close>

definition cachePage ::
  "ChipMapping \<Rightarrow> WireFormat \<Rightarrow> byte list \<Rightarrow> RAWDataHeader \<Rightarrow> nat \<Rightarrow> RawPixelReader \<Rightarrow>
   (nat \<times> nat) list \<Rightarrow> int \<Rightarrow> fault + RawPixelReader \<times> (nat \<times> nat) list \<times> int" where
  "cachePage M W slack rdh p rd enough nLEnough =
     (let ruIDSW = FEEId2RUSW M (feeId rdh) in
      bindF (getCreateRUDecode M ruIDSW rd)
        (\<lambda>(slot, rd1).
           let ruDecode = mRUDecodeVec rd1 ! slot; lid = unat (linkID rdh) in
           if \<not> lid < length (links ruDecode) then Inl OutOfRange
           else
             bindF
               (case links ruDecode ! lid of
                  Some link \<Rightarrow>
                    if int (length (buf (data link))) < lastPageSize link \<or> lastPageSize link < 0
                    then Inl OutOfRange
                    else
                      bindF (readRDH W (buf (data link) @ slack)
                               (length (buf (data link)) - nat (lastPageSize link)))
                        (\<lambda>rdhPrev. Inr (link, \<not> isSameRUandTrigger rdhPrev rdh, mNLinks rd1))
                | None \<Rightarrow> Inr (newRULink, True, mNLinks rd1 + 1))
               (\<lambda>(link, newTrigger, nlinks).
                  let msize = unat (memorySize rdh);
                      mem = buf (mRawBuffer rd1) @ slack
                  in if \<not> p + msize \<le> length mem \<or> msize < nat sizeofRDH then Inl OutOfRange
                     else
                       (let page = take msize (drop p mem);
                            link1 = link\<lparr>data := addFast (putOffsetToNext W (memorySize rdh) page) (data link),
                                         lastPageSize := int msize\<rparr>;
                            link2 = (if newTrigger then link1\<lparr>nTriggers := nTriggers link1 + 1\<rparr> else link1);
                            flag = (newTrigger \<and> nTriggers link2 \<ge> mMinTriggersToCache rd1 \<and>
                                    (ruIDSW, lid) \<notin> set enough);
                            stat = mDecodingStat rd1
                        in Inr (rd1\<lparr>mNLinks := nlinks,
                                   mRUDecodeVec := (mRUDecodeVec rd1)
                                     [slot := ruDecode\<lparr>links := (links ruDecode)[lid := Some link2]\<rparr>],
                                   mDecodingStat := stat\<lparr>nBytesProcessed := nBytesProcessed stat + msize,
                                     nPagesProcessed := nPagesProcessed stat + 1\<rparr>\<rparr>,
                                if flag then (ruIDSW, lid) # enough else enough,
                                if flag then nLEnough + 1 else nLEnough)))))"

text \<open>
  The loop of \<^verbatim>\<open>cacheLinksData\<close>. \<open>rdhPos\<close> is the position in the raw buffer the pointer
  \<open>rdh\<close> points to: the position of the read pointer when the loop is entered and at the
  end of every run, but not after a recovery by \<open>findNextRDH\<close>, which moves the read
  pointer only. The loop need not end (a page with \<open>offsetToNext = 0\<close> is cached again and
  again): not returning is the value \<open>None\<close>.
\<close>

partial_function (option) cacheLoop ::
  "ChipMapping \<Rightarrow> WireFormat \<Rightarrow> byte list \<Rightarrow> nat \<Rightarrow> RawPixelReader \<Rightarrow> (nat \<times> nat) list \<Rightarrow> int \<Rightarrow>
   (fault + RawPixelReader \<times> int) option" where
  "cacheLoop M W slack rdhPos rd enough nLEnough =
     (case readRDH W (buf (mRawBuffer rd) @ slack) rdhPos of
        Inl e \<Rightarrow> Some (Inl e)
      | Inr rdh \<Rightarrow>
          (case (if \<not> isRDHHeuristic rdh then findNextRDH W slack (mRawBuffer rd)
                 else Inr (True, mRawBuffer rd)) of
             Inl e \<Rightarrow> Some (Inl e)
           | Inr (found, buffer) \<Rightarrow>
               if \<not> found then Some (Inr (rd\<lparr>mRawBuffer := buffer\<rparr>, nLEnough))
               else
                 (case cachePage M W slack rdh (ptr buffer) (rd\<lparr>mRawBuffer := buffer\<rparr>)
                         enough nLEnough of
                    Inl e \<Rightarrow> Some (Inl e)
                  | Inr (rd1, enough1, nLEnough1) \<Rightarrow>
                      (let p = ptr buffer + unat (offsetToNext rdh);
                           rd2 = rd1\<lparr>mRawBuffer := setPtr p (mRawBuffer rd1)\<rparr>
                       in if int (mNLinks rd2) = nLEnough1 then Some (Inr (rd2, nLEnough1))
                          else if isEmpty (mRawBuffer rd2) then Some (Inr (rd2, nLEnough1))
                          else cacheLoop M W slack p rd2 enough1 nLEnough1))))"

definition INT_MAX :: int where
  "INT_MAX = 2147483647"

text \<open>The smallest number of triggers among the links of the first \<open>mNRUs\<close> containers.\<close>

definition minTriggersOfLinks :: "RawPixelReader \<Rightarrow> int" where
  "minTriggersOfLinks rd =
     fold (\<lambda>l m. case l of Some link \<Rightarrow> (if nTriggers link < m then nTriggers link else m)
                   | None \<Rightarrow> m)
       (concat (map links (take (mNRUs rd) (mRUDecodeVec rd)))) INT_MAX"

text \<open>\<^verbatim>\<open>cacheLinksData(mRawBuffer)\<close>: the data of the raw buffer are split among the links.\<close>

definition cacheLinksData ::
  "ChipMapping \<Rightarrow> WireFormat \<Rightarrow> byte list \<Rightarrow> RawPixelReader \<Rightarrow> (fault + RawPixelReader) option" where
  "cacheLinksData M W slack rd =
     (if isEmpty (mRawBuffer rd) then Some (Inr rd)
      else
        (case cacheLoop M W slack (ptr (mRawBuffer rd)) rd [] 0 of
           None \<Rightarrow> None
         | Some (Inl e) \<Rightarrow> Some (Inl e)
         | Some (Inr (rd1, nLEnough)) \<Rightarrow>
             Some (Inr (rd1\<lparr>mMinTriggersCached :=
                (if int (mNLinks rd1) = nLEnough then mMinTriggersToCache rd1
                 else minTriggersOfLinks rd1)\<rparr>))))"

section \<open>Decoding: the data of a readout unit\<close>

text \<open>
  The loop of \<^verbatim>\<open>decodeRUData\<close> over the GBT words between the header and the trailer of
  a page: at most \<open>n\<close> words are read from the position \<open>raw\<close> on, a trailer ends the loop.
  The 9 data bytes of a word are appended to the buffer of its cable.
\<close>

fun gbtWords ::
  "ChipMapping \<Rightarrow> WireFormat \<Rightarrow> nat \<Rightarrow> byte list \<Rightarrow> nat \<Rightarrow> nat \<Rightarrow> RUDecodeData \<Rightarrow>
   fault + nat \<times> RUDecodeData" where
  "gbtWords M W ws mem 0 raw d = Inr (raw, d)"
| "gbtWords M W ws mem (Suc n) raw d =
     (case readGBT mem raw of
        Inl e \<Rightarrow> Inl e
      | Inr gbtD \<Rightarrow>
          if isDataTrailer W gbtD then Inr (raw, d)
          else
            (case ruInfo d of
               None \<Rightarrow> Inl NullPointer
             | Some info \<Rightarrow>
                 (let hw = getCableID W gbtD;
                      sw = cableHW2SW M (ruType info) hw
                  in if \<not> sw < length (cableData d) \<or> \<not> sw < length (cableHWID d)
                     then Inl OutOfRange
                     else
                       (let st = statistics d;
                            st1 = st\<lparr>lanesWithData := lanesWithData st OR push_bit sw 1\<rparr>;
                            st2 = (if lanesStop st1 AND push_bit sw 1 \<noteq> 0
                                   then countError ErrDataForStoppedLane st1 else st1)
                        in gbtWords M W ws mem n (raw + ws)
                             (d\<lparr>cableData := (cableData d)
                                   [sw := addFast (take 9 gbtD) (cableData d ! sw)],
                                cableHWID := (cableHWID d)[sw := hw],
                                statistics := st2\<rparr>)))))"

text \<open>
  The \<^verbatim>\<open>while (1)\<close> loop of \<^verbatim>\<open>decodeRUData\<close> over the pages of one trigger; \<open>rdhPos\<close> is the
  position of the header \<open>rdh\<close> of the page. The result is the pointer \<open>raw\<close>, the flag
  \<open>aborted\<close> and the container. The number of words \<open>nGBTWords\<close> is only used as the
  bound of the loop over the words, which does not run for a value below 1.
\<close>

function decodePages ::
  "ChipMapping \<Rightarrow> WireFormat \<Rightarrow> nat \<Rightarrow> byte list \<Rightarrow> nat \<Rightarrow> RUDecodeData \<Rightarrow>
   fault + nat \<times> bool \<times> RUDecodeData" where
  "decodePages M W ws mem rdhPos d =
     (case readRDH W mem rdhPos of
        Inl e \<Rightarrow> Inl e
      | Inr rdh \<Rightarrow>
          (let raw = rdhPos + unat (headerSize rdh);
               nGBTWords = (uint (memorySize rdh) - uint (headerSize rdh)) div int ws - 2
           in case readGBT mem raw of
                Inl e \<Rightarrow> Inl e
              | Inr gbtH \<Rightarrow>
                  if \<not> isDataHeader W gbtH
                  then Inr (raw, True, d\<lparr>statistics := countError ErrMissingGBTHeader (statistics d)\<rparr>)
                  else
                    (let st = statistics d;
                         st1 = (if getPacketID W gbtH \<noteq> pageCnt rdh
                                then countError ErrRDHvsGBTHPageCnt st else st);
                         st2 = (if lanesActive st1 = lanesStop st1 \<and> pageCnt rdh \<noteq> 0
                                then countError ErrNonZeroPageAfterStop st1 else st1);
                         st3 = st2\<lparr>lanesActive := getLanes W gbtH\<rparr>;
                         st4 = (if pageCnt rdh = 0 then st3\<lparr>lanesStop := 0, lanesWithData := 0\<rparr>
                                else st3)
                     in case gbtWords M W ws mem (nat nGBTWords) (raw + ws) (d\<lparr>statistics := st4\<rparr>) of
                          Inl e \<Rightarrow> Inl e
                        | Inr (raw1, d1) \<Rightarrow>
                            (case readGBT mem raw1 of
                               Inl e \<Rightarrow> Inl e
                             | Inr gbtT \<Rightarrow>
                                 if \<not> isDataTrailer W gbtT
                                 then Inr (raw1, True,
                                   d1\<lparr>statistics := countError ErrMissingGBTTrailer (statistics d1)\<rparr>)
                                 else
                                   (let st5 = (statistics d1)
                                          \<lparr>lanesTimeOut := lanesTimeOut (statistics d1) OR getLanesTimeout W gbtT,
                                           lanesStop := lanesStop (statistics d1) OR getLanesStop W gbtT\<rparr>;
                                        rawN = rdhPos + unat (offsetToNext rdh)
                                    in if offsetToNext rdh = 0
                                       then Inr (raw1 + ws, False, d1\<lparr>statistics := st5\<rparr>)
                                       else
                                         (case readRDH W mem rawN of
                                            Inl e \<Rightarrow> Inl e
                                          | Inr rdhN \<Rightarrow>
                                              if \<not> isSameRUandTrigger rdh rdhN
                                              then Inr (rawN, False,
                                                d1\<lparr>statistics := endOfTriggerChecks (SOT W) rdh
                                                      (getPacketState W gbtT) st5\<rparr>)
                                              else decodePages M W ws mem rawN
                                                (d1\<lparr>statistics :=
                                                   (if pageCnt rdhN \<noteq> pageCnt rdh + 1
                                                    then countError ErrPageCounterDiscontinuity st5
                                                    else st5)\<rparr>)))))))"
  by pat_completeness auto
termination
  by (relation "measure (\<lambda>(M, W, ws, mem, rdhPos, d). length mem - rdhPos)")
     (auto simp: readRDH_def sizeofRDH_def word_neq_0_conv word_less_nat_alt split: if_splits)

declare decodePages.simps [simp del]

text \<open>
  \<^verbatim>\<open>decodeRUData(raw, ruDecData, aborted)\<close>: the data of one trigger of a readout unit are
  read from the memory \<open>mem\<close> of a link at the position \<open>raw\<close>; \<open>ws\<close> is \<open>mGBTWordSize\<close>.
\<close>

definition decodeRUData ::
  "ChipMapping \<Rightarrow> WireFormat \<Rightarrow> nat \<Rightarrow> byte list \<Rightarrow> nat \<Rightarrow> RUDecodeData \<Rightarrow>
   fault + nat \<times> bool \<times> RUDecodeData" where
  "decodeRUData M W ws mem raw d =
     bindF (readRDH W mem raw)
       (\<lambda>rdh.
          if \<not> isRDHHeuristic rdh then Inr (raw + ws, True, d)
          else
            (case ruInfo d of
               None \<Rightarrow> Inl NullPointer
             | Some info \<Rightarrow>
                 decodePages M W ws mem raw
                   (d\<lparr>statistics := (statistics d)\<lparr>nPackets := nPackets (statistics d) + 1\<rparr>,
                      nCables := nCablesRU info\<rparr>)))"

section \<open>Decoding: the chips of a readout unit\<close>

text \<open>
  The \<^verbatim>\<open>while\<close> loop of \<^verbatim>\<open>decodeAlpideData\<close> over the chips of the cable \<open>icab\<close>; \<open>ci\<close> is the
  index in \<open>chipsData\<close> the pointer \<open>chipData\<close> points to, \<open>ir\<close> and \<open>trg\<close> are
  \<open>mInteractionRecord\<close> and \<open>mTrigger\<close>, \<open>gs\<close> is \<open>mDecodingStat\<close>. A coder that reports an
  error without consuming a byte is called again and again with the same data; a coder
  that consumes more bytes than the cable holds reads outside the buffer.
\<close>

function decodeChips ::
  "ChipMapping \<Rightarrow> AlpideCoder \<Rightarrow> InteractionRecord \<Rightarrow> 32 word \<Rightarrow> nat \<Rightarrow> nat \<Rightarrow> RUDecodeData \<Rightarrow>
   RawDecodingStat \<Rightarrow> fault + nat \<times> RUDecodeData \<times> RawDecodingStat" where
  "decodeChips M C ir trg icab ci d gs =
     (if \<not> icab < length (cableData d) \<or> \<not> icab < length (cableHWID d) \<or>
         \<not> ci < length (chipsData d) then Inl OutOfRange
      else
        (case decodeChip C (unusedBytes (cableData d ! icab)) of
           (res, chip, n) \<Rightarrow>
             if n > getUnusedSize (cableData d ! icab) then Inl OutOfRange
             else
               (let cable = setPtr (ptr (cableData d ! icab) + n) (cableData d ! icab);
                    d1 = d\<lparr>cableData := (cableData d)[icab := cable],
                           chipsData := (chipsData d)[ci := chip]\<rparr>
                in if res = 0 then Inr (ci, d1, gs)
                   else if res > 0 then
                     (case ruInfo d1 of
                        None \<Rightarrow> Inl NullPointer
                      | Some info \<Rightarrow>
                          (let st = (if ruType info = 0 \<and> chipID chip \<noteq> icab
                                     then countError ErrIBChipLaneMismatch (statistics d1)
                                     else statistics d1);
                               chip1 = chip\<lparr>chipID := getGlobalChipID M (chipID chip) (cableHWID d1 ! icab) info,
                                            interactionRecord := ir, trigger := trg\<rparr>;
                               gs1 = gs\<lparr>nNonEmptyChips := nNonEmptyChips gs + 1,
                                        nHitsDecoded := nHitsDecoded gs + length (pixels chip)\<rparr>;
                               d2 = d1\<lparr>chipsData := (chipsData d1)[ci := chip1], statistics := st,
                                       nChipsFired := nChipsFired d1 + 1\<rparr>
                           in if int (nChipsFired d2) < MaxChipsPerRU
                              then decodeChips M C ir trg icab (nChipsFired d2) d2 gs1
                              else Inr (ci, d2, gs1)))
                   else if n = 0 then Inl Diverges
                   else decodeChips M C ir trg icab ci d1 gs)))"
  by pat_completeness auto
termination
  by (relation "measures [\<lambda>(M, C, ir, trg, icab, ci, d, gs). getUnusedSize (cableData d ! icab),
                          \<lambda>(M, C, ir, trg, icab, ci, d, gs). nat MaxChipsPerRU - nChipsFired d]")
     (auto simp: getUnusedSize_def setPtr_def MaxChipsPerRU_def)

declare decodeChips.simps [simp del]

text \<open>The loop of \<^verbatim>\<open>decodeAlpideData\<close> over the cables.\<close>

fun decodeCables ::
  "ChipMapping \<Rightarrow> AlpideCoder \<Rightarrow> InteractionRecord \<Rightarrow> 32 word \<Rightarrow> nat list \<Rightarrow> nat \<Rightarrow> RUDecodeData \<Rightarrow>
   RawDecodingStat \<Rightarrow> fault + RUDecodeData \<times> RawDecodingStat" where
  "decodeCables M C ir trg [] ci d gs = Inr (d, gs)"
| "decodeCables M C ir trg (icab # rest) ci d gs =
     (if \<not> icab < length (cableData d) then Inl OutOfRange
      else
        (let cable = cableData d ! icab;
             st = (if \<not> isEmpty cable \<and> \<not> isChipHeaderOrEmpty C (buf cable ! ptr cable)
                   then countError ErrCableDataHeadWrong (statistics d) else statistics d)
         in bindF (decodeChips M C ir trg icab ci (d\<lparr>statistics := st\<rparr>) gs)
              (\<lambda>(ci1, d1, gs1). decodeCables M C ir trg rest ci1 d1 gs1)))"

text \<open>\<^verbatim>\<open>decodeAlpideData(decData)\<close>: the chips are decoded from the buffers of the cables.\<close>

definition decodeAlpideData ::
  "ChipMapping \<Rightarrow> AlpideCoder \<Rightarrow> InteractionRecord \<Rightarrow> 32 word \<Rightarrow> RUDecodeData \<Rightarrow> RawDecodingStat \<Rightarrow>
   fault + RUDecodeData \<times> RawDecodingStat" where
  "decodeAlpideData M C ir trg d gs =
     (let d0 = d\<lparr>nChipsFired := 0, lastChipChecked := 0\<rparr>
      in decodeCables M C ir trg [0..<nCables d0] 0 d0 gs)"

text \<open>The loop of \<^verbatim>\<open>decodeNextRUData\<close> over the links of the container.\<close>

fun decodeLinks ::
  "ChipMapping \<Rightarrow> WireFormat \<Rightarrow> nat \<Rightarrow> byte list \<Rightarrow> nat list \<Rightarrow> RUDecodeData \<Rightarrow> int \<Rightarrow>
   fault + RUDecodeData \<times> int" where
  "decodeLinks M W ws slack [] d res = Inr (d, res)"
| "decodeLinks M W ws slack (il # rest) d res =
     (case links d ! il of
        None \<Rightarrow> decodeLinks M W ws slack rest d res
      | Some link \<Rightarrow>
          if isEmpty (data link) then decodeLinks M W ws slack rest d res
          else
            bindF (decodeRUData M W ws (buf (data link) @ slack) (ptr (data link)) d)
              (\<lambda>(raw, aborted, d1).
                 let dat = setPtr raw (data link);
                     link1 = link\<lparr>data := (if isEmpty dat then clearCont dat else dat),
                                  nTriggers := nTriggers link - 1\<rparr>
                 in decodeLinks M W ws slack rest
                      (d1\<lparr>links := (links d1)[il := Some link1]\<rparr>) (res + 1)))"

text \<open>\<^verbatim>\<open>decodeNextRUData(ruDecData)\<close>: one trigger of a readout unit, from its links.\<close>

definition decodeNextRUData ::
  "ChipMapping \<Rightarrow> AlpideCoder \<Rightarrow> WireFormat \<Rightarrow> nat \<Rightarrow> byte list \<Rightarrow> InteractionRecord \<Rightarrow> 32 word \<Rightarrow>
   RUDecodeData \<Rightarrow> RawDecodingStat \<Rightarrow> fault + int \<times> RUDecodeData \<times> RawDecodingStat" where
  "decodeNextRUData M C W ws slack ir trg d gs =
     (let d0 = clearTrigger d
      in bindF (decodeLinks M W ws slack [0..<length (links d0)] d0 0)
           (\<lambda>(d1, res).
              if nCables d1 \<noteq> 0
              then bindF (decodeAlpideData M C ir trg d1 gs) (\<lambda>(d2, gs2). Inr (res, d2, gs2))
              else Inr (res, d1, gs)))"

section \<open>Decoding: triggers and chips\<close>

text \<open>The first link of a container with data, if any.\<close>

definition firstLinkWithData :: "RUDecodeData \<Rightarrow> RULink option" where
  "firstLinkWithData d =
     (case filter (\<lambda>l. case l of Some link \<Rightarrow> \<not> isEmpty (data link) | None \<Rightarrow> False) (links d) of
        [] \<Rightarrow> None
      | l # _ \<Rightarrow> l)"

text \<open>
  The loop of \<^verbatim>\<open>decodeNextTrigger\<close> over the containers \<open>mNRUs - 1, ..., 0\<close>. As long as no
  link was decoded, the interaction records and the trigger are read from the header at
  the read pointer of the first link with data.
\<close>

fun decodeRUs ::
  "ChipMapping \<Rightarrow> AlpideCoder \<Rightarrow> WireFormat \<Rightarrow> byte list \<Rightarrow> nat list \<Rightarrow> RawPixelReader \<Rightarrow> int \<Rightarrow>
   fault + RawPixelReader \<times> int" where
  "decodeRUs M C W slack [] rd nlinks = Inr (rd, nlinks)"
| "decodeRUs M C W slack (k # rest) rd nlinks =
     (if \<not> k < length (mRUDecodeVec rd) then Inl OutOfRange
      else
        (let ruDecode = mRUDecodeVec rd ! k in
         bindF
           (if nlinks = 0 then
              (case firstLinkWithData ruDecode of
                 None \<Rightarrow> Inr rd
               | Some link \<Rightarrow>
                   bindF (readRDH W (buf (data link) @ slack) (ptr (data link)))
                     (\<lambda>rdh. Inr (rd\<lparr>mInteractionRecord :=
                                       \<lparr>bc = ucast (triggerBC rdh), orbit = triggerOrbit rdh\<rparr>,
                                     mTrigger := triggerType rdh,
                                     mInteractionRecordHB :=
                                       \<lparr>bc = ucast (heartbeatBC rdh), orbit = heartbeatOrbit rdh\<rparr>\<rparr>)))
            else Inr rd)
           (\<lambda>rd1.
              bindF (decodeNextRUData M C W (mGBTWordSize rd1) slack (mInteractionRecord rd1)
                       (mTrigger rd1) ruDecode (mDecodingStat rd1))
                (\<lambda>(res, d, gs).
                   decodeRUs M C W slack rest
                     (rd1\<lparr>mRUDecodeVec := (mRUDecodeVec rd1)[k := d],
                          mDecodingStat := gs\<lparr>nRUsProcessed := nRUsProcessed gs + 1\<rparr>\<rparr>)
                     (nlinks + res)))))"

text \<open>\<^verbatim>\<open>decodeNextTrigger()\<close>: returns the number of links decoded.\<close>

definition decodeNextTrigger ::
  "ChipMapping \<Rightarrow> AlpideCoder \<Rightarrow> WireFormat \<Rightarrow> byte list \<Rightarrow> RawPixelReader \<Rightarrow>
   fault + int \<times> RawPixelReader" where
  "decodeNextTrigger M C W slack rd =
     (if mMinTriggersCached rd < 1 then Inr (0, rd)
      else
        bindF (decodeRUs M C W slack (rev [0..<mNRUs rd]) rd 0)
          (\<lambda>(rd1, nlinks).
             Inr (nlinks, rd1\<lparr>mCurRUDecodeID := 0,
                             mMinTriggersCached := mMinTriggersCached rd1 - 1\<rparr>)))"

text \<open>
  The loop of \<^verbatim>\<open>getNextChipData\<close> over the containers, from the slot \<open>mCurRUDecodeID\<close> on:
  the first slot among \<open>slots\<close> whose container has a fired chip that was not yet given out.
\<close>

fun findFired :: "RUDecodeData list \<Rightarrow> nat list \<Rightarrow> fault + nat option" where
  "findFired vec [] = Inr None"
| "findFired vec (k # rest) =
     (if \<not> k < length vec then Inl OutOfRange
      else if lastChipChecked (vec ! k) < nChipsFired (vec ! k) then Inr (Some k)
      else findFired vec rest)"

text \<open>
  \<^verbatim>\<open>getNextChipData(chipData)\<close>: the next chip is swapped into \<open>chipData\<close>. The result is
  the return value, the container \<open>chipData\<close> and the reader. The function calls itself
  after a new trigger was decoded.
\<close>

partial_function (option) getNextChipData ::
  "ChipMapping \<Rightarrow> AlpideCoder \<Rightarrow> WireFormat \<Rightarrow> byte list \<Rightarrow> ChipPixelData \<Rightarrow> RawPixelReader \<Rightarrow>
   (fault + bool \<times> ChipPixelData \<times> RawPixelReader) option" where
  "getNextChipData M C W slack chipData rd =
     (case (if mCurRUDecodeID rd \<ge> 0
            then findFired (mRUDecodeVec rd) [nat (mCurRUDecodeID rd)..<mNRUs rd]
            else Inr None) of
        Inl e \<Rightarrow> Some (Inl e)
      | Inr (Some k) \<Rightarrow>
          (let d = mRUDecodeVec rd ! k; n = lastChipChecked d
           in if \<not> n < length (chipsData d) then Some (Inl OutOfRange)
              else Some (Inr (True, chipsData d ! n,
                     rd\<lparr>mCurRUDecodeID := int k,
                        mRUDecodeVec := (mRUDecodeVec rd)
                          [k := d\<lparr>chipsData := (chipsData d)[n := chipData],
                                  lastChipChecked := n + 1\<rparr>]\<rparr>)))
      | Inr None \<Rightarrow>
          (let rd0 = (if mCurRUDecodeID rd \<ge> 0 then rd\<lparr>mCurRUDecodeID := 0\<rparr> else rd)
           in case (if mMinTriggersCached rd0 < 2 then cacheLinksData M W slack rd0
                    else Some (Inr rd0)) of
                None \<Rightarrow> None
              | Some (Inl e) \<Rightarrow> Some (Inl e)
              | Some (Inr rd1) \<Rightarrow>
                  if mMinTriggersCached rd1 < 1
                  then Some (Inr (False, chipData, rd1\<lparr>mCurRUDecodeID := - 1\<rparr>))
                  else
                    (case decodeNextTrigger M C W slack rd1 of
                       Inl e \<Rightarrow> Some (Inl e)
                     | Inr (nlinks, rd2) \<Rightarrow>
                         if nlinks = 0
                         then Some (Inr (False, chipData, rd2\<lparr>mCurRUDecodeID := - 1\<rparr>))
                         else getNextChipData M C W slack chipData rd2)))"

section \<open>Raw data of the small detector\<close>

text \<open>
  A page of the readout unit \<open>r\<close> (link 0) for the trigger of orbit \<open>ob\<close>, as it comes in
  the input: the header (112 bytes in memory, the next page after 128 bytes), a GBT
  header for lane 0, one data word of cable 0 with the chip 0 and its pixel (3, 5), the
  trailer with lane 0 stopped, and 16 bytes of padding.
\<close>

definition demoPage :: "nat \<Rightarrow> 32 word \<Rightarrow> byte list" where
  "demoPage r ob =
     rdhV4Bytes (defaultRDH\<lparr>feeId := of_nat r, offsetToNext := 128, memorySize := 112,
        triggerOrbit := ob, heartbeatOrbit := ob, triggerType := 0x10\<rparr>) @
     gbtHeaderW8 demoWire 0 1 @
     ([0xA0, 42, 3, 5, 0xB0, 0, 0, 0, 0, 0x20] @ replicate 6 0) @
     gbtTrailerW8 demoWire 1 0 @
     replicate 16 0"

text \<open>
  Sixteen bytes that are no header (the header size is 0) and give, read as a header
  with the bytes after them, the unit 1, the link 0, a size in memory of 80 bytes and
  the next page after 128 bytes.
\<close>

definition staleHeaderBytes :: "byte list" where
  "staleHeaderBytes = [0, 0, 0, 0, 1, 0, 0, 0, 0x80, 0, 0x50, 0, 0, 0, 0, 0]"

text \<open>A reader as constructed, with the bytes \<open>bs\<close> in its raw buffer.\<close>

definition readerOn :: "byte list \<Rightarrow> RawPixelReader" where
  "readerOn bs = (newReader 2)\<lparr>mRawBuffer := \<lparr>buf = bs, ptr = 0\<rparr>\<rparr>"

text \<open>Memory behind the data of the buffers: 64 zero bytes.\<close>

definition zeroSlack :: "byte list" where
  "zeroSlack = replicate 64 0"

(* ======================================================================== *)

section \<open>Continuation of a trigger\<close>

text \<open>
  Claim C5. The reader treats \<open>rdhNew\<close> as a continuation of the trigger of \<open>rdhOld\<close>
  exactly when its page counter is not zero, the FEE id, the trigger orbit and bunch
  crossing and the heartbeat orbit and bunch crossing agree, and the two trigger types
  share a bit.
\<close>

theorem isSameRUandTrigger_iff:
  "isSameRUandTrigger rdhOld rdhNew \<longleftrightarrow>
     pageCnt rdhNew \<noteq> 0 \<and> feeId rdhNew = feeId rdhOld \<and>
     triggerOrbit rdhNew = triggerOrbit rdhOld \<and>
     triggerBC rdhNew = triggerBC rdhOld \<and>
     heartbeatOrbit rdhNew = heartbeatOrbit rdhOld \<and>
     heartbeatBC rdhNew = heartbeatBC rdhOld \<and>
     (triggerType rdhNew AND triggerType rdhOld) \<noteq> 0"
  by (simp add: isSameRUandTrigger_def)

theorem isSameRUandTrigger_iff_witness:
  "isSameRUandTrigger (defaultRDH\<lparr>triggerType := 0x10\<rparr>)
     (defaultRDH\<lparr>triggerType := 0x10, pageCnt := 1\<rparr>) \<and>
   \<not> isSameRUandTrigger (defaultRDH\<lparr>triggerType := 0x10\<rparr>)
     (defaultRDH\<lparr>triggerType := 0x80, pageCnt := 1\<rparr>)"
  using isSameRUandTrigger_iff [of "defaultRDH\<lparr>triggerType := 0x10\<rparr>"
      "defaultRDH\<lparr>triggerType := 0x10, pageCnt := 1\<rparr>"]
    isSameRUandTrigger_iff [of "defaultRDH\<lparr>triggerType := 0x10\<rparr>"
      "defaultRDH\<lparr>triggerType := 0x80, pageCnt := 1\<rparr>"]
  by (simp add: defaultRDH_def)

section \<open>Minimum number of cached triggers\<close>

text \<open>
  Claim C8. For every \<open>n\<close> the value stored by \<^verbatim>\<open>setMinTriggersToCache(n)\<close> is the
  maximum of \<open>n\<close> and \<open>NCRUPagesPerSuperpage + 1\<close>: it is \<open>NCRUPagesPerSuperpage + 1\<close> for
  \<open>n \<le> NCRUPagesPerSuperpage\<close> and \<open>n\<close> itself above.
\<close>

theorem setMinTriggersToCache_max:
  "getMinTriggersToCache (setMinTriggersToCache n rd) = max n (NCRUPagesPerSuperpage + 1) \<and>
   getMinTriggersToCache (setMinTriggersToCache n rd) =
     (if n \<le> NCRUPagesPerSuperpage then NCRUPagesPerSuperpage + 1 else n)"
  by (simp add: setMinTriggersToCache_def getMinTriggersToCache_def max_def)

section \<open>Checks at the end of a trigger\<close>

lemma errorCounts_countPacketState:
  "errorCounts (countPacketState p s) = errorCounts s"
  by (simp add: countPacketState_def)

lemma unstopped_lanes_exact:
  "errorCounts (endOfTriggerChecks sot rdh pstate s) ErrUnstoppedLanes =
     errorCounts s ErrUnstoppedLanes +
       (if lanesActive s \<noteq> lanesStop s \<and> triggerType rdh \<noteq> sot then 1 else 0)"
  by (simp add: endOfTriggerChecks_def checkLanesWithData_def checkLaneStops_def
      countError_def errorCounts_countPacketState)

lemma no_data_exact:
  "errorCounts (endOfTriggerChecks sot rdh pstate s) ErrNoDataForActiveLane =
     errorCounts s ErrNoDataForActiveLane +
       (if (NOT (lanesWithData s) AND lanesActive s) \<noteq> lanesTimeOut s then 1 else 0)"
  by (simp add: endOfTriggerChecks_def checkLanesWithData_def checkLaneStops_def
      countError_def errorCounts_countPacketState)

text \<open>
  Claim C7, as the code has it. At the end of a trigger \<open>ErrUnstoppedLanes\<close> is counted
  (once) exactly when \<open>lanesActive\<close> differs from \<open>lanesStop\<close> and the trigger type of the
  page is not equal to \<open>SOT\<close>: the comparison is with the whole value, not with the bit.
\<close>

theorem unstopped_lanes_unless_equal_SOT:
  "errorCounts (endOfTriggerChecks sot rdh pstate s) ErrUnstoppedLanes =
     (if lanesActive s = lanesStop s \<or> triggerType rdh = sot
      then errorCounts s ErrUnstoppedLanes
      else errorCounts s ErrUnstoppedLanes + 1)"
  by (simp add: unstopped_lanes_exact)

text \<open>
  The claim as stated fails: with \<open>SOT = 0x80\<close> (bit 7) and the trigger type \<open>0x90\<close>
  (\<open>SOT\<close> together with the physics trigger bit \<open>0x10\<close>), one active lane and no stop
  received, the SOT bit is set and the error is counted all the same.
\<close>

theorem unstopped_lanes_SOT_bit_counterexample:
  "((0x90 :: 32 word) AND 0x80) \<noteq> 0 \<and>
   errorCounts
     (endOfTriggerChecks 0x80 (defaultRDH\<lparr>triggerType := 0x90\<rparr>) 1
        \<lparr>lanesActive = 1, lanesStop = 0, lanesTimeOut = 0, lanesWithData = 1, nPackets = 1,
         errorCounts = (\<lambda>_. 0), packetStates = (\<lambda>_. 0)\<rparr>) ErrUnstoppedLanes = 1"
  by (simp add: unstopped_lanes_exact defaultRDH_def)

text \<open>
  Claim C4, as the code has it. At the end of a trigger, if some lane is active, not in
  time-out and without data, \<open>ErrNoDataForActiveLane\<close> is counted (once), whatever the
  trigger type of the page: this check has no exception for \<open>SOT\<close>. And when every lane
  in time-out is an active lane without data (so, when no lane is in time-out), the error
  is counted only then: without such a lane the counter stays as it is.
\<close>

theorem no_data_for_active_lane_counted:
  "((\<exists>i. bit (lanesActive s) i \<and> \<not> bit (lanesTimeOut s) i \<and> \<not> bit (lanesWithData s) i) \<longrightarrow>
      errorCounts (endOfTriggerChecks sot rdh pstate s) ErrNoDataForActiveLane =
        errorCounts s ErrNoDataForActiveLane + 1) \<and>
   ((\<forall>i. bit (lanesTimeOut s) i \<longrightarrow> bit (lanesActive s) i \<and> \<not> bit (lanesWithData s) i) \<and>
    \<not> (\<exists>i. bit (lanesActive s) i \<and> \<not> bit (lanesTimeOut s) i \<and> \<not> bit (lanesWithData s) i) \<longrightarrow>
      errorCounts (endOfTriggerChecks sot rdh pstate s) ErrNoDataForActiveLane =
        errorCounts s ErrNoDataForActiveLane)"
proof (intro conjI impI)
  assume "\<exists>i. bit (lanesActive s) i \<and> \<not> bit (lanesTimeOut s) i \<and> \<not> bit (lanesWithData s) i"
  then obtain i where i: "bit (lanesActive s) i" "\<not> bit (lanesTimeOut s) i"
    "\<not> bit (lanesWithData s) i" by blast
  have "bit (NOT (lanesWithData s) AND lanesActive s) i"
    using i bit_imp_le_length [OF i(1)] by (simp add: bit_and_iff bit_not_iff)
  with i(2) have "(NOT (lanesWithData s) AND lanesActive s) \<noteq> lanesTimeOut s"
    by metis
  then show "errorCounts (endOfTriggerChecks sot rdh pstate s) ErrNoDataForActiveLane =
        errorCounts s ErrNoDataForActiveLane + 1"
    by (simp add: no_data_exact)
next
  assume a: "(\<forall>i. bit (lanesTimeOut s) i \<longrightarrow> bit (lanesActive s) i \<and> \<not> bit (lanesWithData s) i) \<and>
    \<not> (\<exists>i. bit (lanesActive s) i \<and> \<not> bit (lanesTimeOut s) i \<and> \<not> bit (lanesWithData s) i)"
  have "(NOT (lanesWithData s) AND lanesActive s) = lanesTimeOut s"
  proof (rule bit_eqI)
    fix n
    show "bit (NOT (lanesWithData s) AND lanesActive s) n = bit (lanesTimeOut s) n"
      using a by (auto simp: bit_and_iff bit_not_iff dest: bit_imp_le_length)
  qed
  then show "errorCounts (endOfTriggerChecks sot rdh pstate s) ErrNoDataForActiveLane =
        errorCounts s ErrNoDataForActiveLane"
    by (simp add: no_data_exact)
qed

theorem no_data_for_active_lane_counted_witness:
  "errorCounts
     (endOfTriggerChecks 0x80 (defaultRDH\<lparr>triggerType := 0x80\<rparr>) 1
        \<lparr>lanesActive = 1, lanesStop = 1, lanesTimeOut = 0, lanesWithData = 0, nPackets = 1,
         errorCounts = (\<lambda>_. 0), packetStates = (\<lambda>_. 0)\<rparr>) ErrNoDataForActiveLane = 1 \<and>
   errorCounts
     (endOfTriggerChecks 0x80 (defaultRDH\<lparr>triggerType := 0x10\<rparr>) 1
        \<lparr>lanesActive = 3, lanesStop = 3, lanesTimeOut = 2, lanesWithData = 1, nPackets = 1,
         errorCounts = (\<lambda>_. 0), packetStates = (\<lambda>_. 0)\<rparr>) ErrNoDataForActiveLane = 0"
proof -
  let ?s1 = "\<lparr>lanesActive = 1, lanesStop = 1, lanesTimeOut = 0, lanesWithData = 0, nPackets = 1,
         errorCounts = (\<lambda>_. 0), packetStates = (\<lambda>_. 0)\<rparr> :: RUDecodingStat"
  let ?s2 = "\<lparr>lanesActive = 3, lanesStop = 3, lanesTimeOut = 2, lanesWithData = 1, nPackets = 1,
         errorCounts = (\<lambda>_. 0), packetStates = (\<lambda>_. 0)\<rparr> :: RUDecodingStat"
  have b1': "\<And>i. bit (1 :: 32 word) i \<longleftrightarrow> i = 0" by (simp add: bit_1_iff)
  have b2: "\<And>i. bit (2 :: 32 word) i \<longleftrightarrow> i = 1"
  proof -
    fix i show "bit (2 :: 32 word) i \<longleftrightarrow> i = 1"
      by (cases i) (simp_all add: bit_Suc b1')
  qed
  have b3: "\<And>i. bit (3 :: 32 word) i \<longleftrightarrow> i = 0 \<or> i = 1"
  proof -
    fix i show "bit (3 :: 32 word) i \<longleftrightarrow> i = 0 \<or> i = 1"
      by (cases i) (simp_all add: bit_Suc b1')
  qed
  have h1: "\<exists>i. bit (lanesActive ?s1) i \<and> \<not> bit (lanesTimeOut ?s1) i \<and> \<not> bit (lanesWithData ?s1) i"
    by (intro exI [of _ 0]) simp
  have h2: "(\<forall>i. bit (lanesTimeOut ?s2) i \<longrightarrow> bit (lanesActive ?s2) i \<and> \<not> bit (lanesWithData ?s2) i) \<and>
    \<not> (\<exists>i. bit (lanesActive ?s2) i \<and> \<not> bit (lanesTimeOut ?s2) i \<and> \<not> bit (lanesWithData ?s2) i)"
    by (simp only: RUDecodingStat.simps b1' b2 b3) auto
  from no_data_for_active_lane_counted [of ?s1 "0x80" "defaultRDH\<lparr>triggerType := 0x80\<rparr>" 1] h1
       no_data_for_active_lane_counted [of ?s2 "0x80" "defaultRDH\<lparr>triggerType := 0x10\<rparr>" 1] h2
  show ?thesis by simp
qed

text \<open>
  The claim as stated fails twice. First, lanes 0 and 1 are active and both have sent
  data, lane 0 is also flagged as timed out: no active lane outside the time-out is
  without data, and the error is counted. Second, for a trigger of type \<open>SOT\<close> with an
  active lane without data the error is counted as for every other trigger type.
\<close>

theorem no_data_for_active_lane_counterexample:
  "(((3 :: 32 word) AND NOT 1) AND NOT 3) = 0 \<and>
   errorCounts
     (endOfTriggerChecks 0x80 (defaultRDH\<lparr>triggerType := 0x10\<rparr>) 1
        \<lparr>lanesActive = 3, lanesStop = 3, lanesTimeOut = 1, lanesWithData = 3, nPackets = 1,
         errorCounts = (\<lambda>_. 0), packetStates = (\<lambda>_. 0)\<rparr>) ErrNoDataForActiveLane = 1 \<and>
   ((0x80 :: 32 word) AND 0x80) \<noteq> 0 \<and>
   errorCounts
     (endOfTriggerChecks 0x80 (defaultRDH\<lparr>triggerType := 0x80\<rparr>) 1
        \<lparr>lanesActive = 1, lanesStop = 1, lanesTimeOut = 0, lanesWithData = 0, nPackets = 1,
         errorCounts = (\<lambda>_. 0), packetStates = (\<lambda>_. 0)\<rparr>) ErrNoDataForActiveLane = 1"
  by (simp add: no_data_exact defaultRDH_def)


section \<open>Pages of a trigger in the link buffers\<close>


lemma chunkRDHs_append: "chunkRDHs (xs @ ys) = chunkRDHs xs @ chunkRDHs ys"
  by (induction xs rule: chunkRDHs.induct) auto

lemma cablesToLink_props:
  "finPacket (cablesToLink ws lns flag maxW cs st) + fneeded (cablesToLink ws lns flag maxW cs st)
     = finPacket st + fneeded st \<and>
   finPacket st \<le> finPacket (cablesToLink ws lns flag maxW cs st) \<and>
   (finPacket st < maxW \<longrightarrow> finPacket (cablesToLink ws lns flag maxW cs st) \<le> maxW) \<and>
   chunkRDHs (fchunks (cablesToLink ws lns flag maxW cs st)) = chunkRDHs (fchunks st) \<and>
   frdh (cablesToLink ws lns flag maxW cs st) = frdh st \<and>
   fnTriggers (cablesToLink ws lns flag maxW cs st) = fnTriggers st"
proof (induction cs arbitrary: st)
  case Nil
  then show ?case by simp
next
  case (Cons icab rest)
  show ?case
  proof (cases "servesLane lns icab \<and> getUnusedSize (fcables st ! icab) \<noteq> 0")
    case False
    then show ?thesis using Cons.IH [of st] by (auto simp: Let_def)
  next
    case True
    define cable where "cable = fcables st ! icab"
    define nb9 where "nb9 = (if getUnusedSize cable > 9 then 9 else getUnusedSize cable)"
    define st' where "st' = st\<lparr>fchunks := fchunks st @
        [DataChunk ((take nb9 (unusedBytes cable) @ replicate (ws - nb9) 0)[9 := flag icab])],
      fcables := (fcables st)[icab := setPtr (ptr cable + nb9) cable],
      fneeded := fneeded st - 1, finPacket := finPacket st + 1\<rparr>"
    have step: "cablesToLink ws lns flag maxW (icab # rest) st =
      (if finPacket st' = maxW then st' else cablesToLink ws lns flag maxW rest st')"
      using True by (simp add: Let_def st'_def nb9_def cable_def)
    have p: "finPacket st' = finPacket st + 1" "fneeded st' = fneeded st - 1"
      "chunkRDHs (fchunks st') = chunkRDHs (fchunks st)" "frdh st' = frdh st"
      "fnTriggers st' = fnTriggers st"
      by (simp_all add: st'_def chunkRDHs_append)
    show ?thesis
    proof (cases "finPacket st' = maxW")
      case True
      then show ?thesis using p step by simp
    next
      case False
      then show ?thesis using p step Cons.IH [of st'] by auto
    qed
  qed
qed

lemma fillStep_needed_le: "fneeded (fillStep ws imp lns flag maxW ncab st) \<le> fneeded st"
  using cablesToLink_props [of ws lns flag maxW "[0..<ncab]" st]
  by (auto simp: fillStep_def Let_def newPage_def)

lemma fillPages_Inr:
  assumes "fillPages ws imp lns flag maxW ncab st = Inr stf"
  shows "(fneeded (fillStep ws imp lns flag maxW ncab st) = 0 \<and>
          stf = fillStep ws imp lns flag maxW ncab st) \<or>
         (fneeded (fillStep ws imp lns flag maxW ncab st) \<noteq> 0 \<and>
          unusedTotal (fillStep ws imp lns flag maxW ncab st) < unusedTotal st \<and>
          fillPages ws imp lns flag maxW ncab (fillStep ws imp lns flag maxW ncab st) = Inr stf)"
  using assms by (subst (asm) fillPages.simps) (auto simp: Let_def split: if_splits)

lemma fillPages_needed_nonneg:
  "fillPages ws imp lns flag maxW ncab st = Inr stf \<Longrightarrow> 0 \<le> fneeded st"
proof (induction ws imp lns flag maxW ncab st rule: fillPages.induct)
  case (1 ws imp lns flag maxW ncab st)
  define st1 where "st1 = fillStep ws imp lns flag maxW ncab st"
  have le: "fneeded st1 \<le> fneeded st" unfolding st1_def by (rule fillStep_needed_le)
  show ?case
  proof (cases "fneeded st1 = 0")
    case True
    then show ?thesis using le by simp
  next
    case False
    with fillPages_Inr [OF "1.prems"] have rec: "unusedTotal st1 < unusedTotal st"
      "fillPages ws imp lns flag maxW ncab st1 = Inr stf"
      by (auto simp: st1_def)
    from "1.IH" [OF st1_def False rec(1) rec(2)] le show ?thesis by simp
  qed
qed



lemma pagesInv_cablesToLink:
  assumes "pagesInv maxW N st" "finPacket st < maxW"
  shows "pagesInv maxW N (cablesToLink ws lns flag maxW cs st)"
  using assms cablesToLink_props [of ws lns flag maxW cs st]
  by (simp add: pagesInv_def Let_def)

lemma pagesInv_newPage:
  assumes inv: "pagesInv maxW N st" and full: "finPacket st = maxW" and nn: "0 < fneeded st"
    and pos: "0 < maxW"
  shows "pagesInv maxW N (newPage imp lns maxW st) \<and> finPacket (newPage imp lns maxW st) < maxW"
proof -
  define rs where "rs = chunkRDHs (fchunks st)"
  define r where "r = (frdh st)\<lparr>pageCnt := pageCnt (frdh st) + 1,
                    stop := (if fneeded st < maxW then 1 else 0),
                    blockLength := 0xFFFF\<rparr>"
  define r2 where "r2 = r\<lparr>memorySize := pageMemorySize r (fneeded st) GBTPaddedWordLength,
     offsetToNext := pageOffsetToNext imp (pageMemorySize r (fneeded st) GBTPaddedWordLength)\<rparr>"
  have np: "newPage imp lns maxW st = st\<lparr>fchunks := fchunks st @
                 [TrailerChunk 0 0, RDHChunk r2, HeaderChunk (pageCnt r2) lns],
            frdh := r2, fnTriggers := fnTriggers st + 1, finPacket := 0\<rparr>"
    by (simp add: newPage_def Let_def r_def r2_def)
  have rs': "chunkRDHs (fchunks (newPage imp lns maxW st)) = rs @ [r2]"
    by (simp add: np chunkRDHs_append rs_def)
  from inv have I: "rs \<noteq> []" "frdh st = last rs"
    "\<forall>i<length rs. pageCnt (rs ! i) = of_nat i"
    "\<forall>i. Suc i < length rs \<longrightarrow> stop (rs ! i) = 0" "stop (rs ! 0) = 0"
    "stop (last rs) \<noteq> 0 \<longrightarrow> stop (last rs) = 1 \<and> finPacket st + fneeded st < maxW"
    "N = (int (length rs) - 1) * maxW + finPacket st + fneeded st"
    by (simp_all add: pagesInv_def Let_def rs_def)
  have last0: "stop (last rs) = 0" using I(6) full nn by auto
  have pc: "pageCnt r2 = of_nat (length rs)"
  proof -
    have "pageCnt (last rs) = of_nat (length rs - 1)"
      using I(1,3) by (simp add: last_conv_nth)
    then have "pageCnt r2 = of_nat (length rs - 1) + 1" by (simp add: r2_def r_def I(2))
    also have "\<dots> = of_nat (Suc (length rs - 1))" by simp
    finally show ?thesis using I(1) by simp
  qed
  have st2: "stop r2 = (if fneeded st < maxW then 1 else 0)" by (simp add: r2_def r_def)
  have a: "\<forall>i<length (rs @ [r2]). pageCnt ((rs @ [r2]) ! i) = of_nat i"
  proof (intro allI impI)
    fix i assume "i < length (rs @ [r2])"
    then consider "i < length rs" | "i = length rs" by fastforce
    then show "pageCnt ((rs @ [r2]) ! i) = of_nat i"
      using I(3) pc by cases (simp_all add: nth_append)
  qed
  have b: "\<forall>i. Suc i < length (rs @ [r2]) \<longrightarrow> stop ((rs @ [r2]) ! i) = 0"
  proof (intro allI impI)
    fix i assume "Suc i < length (rs @ [r2])"
    then have "i < length rs" by simp
    show "stop ((rs @ [r2]) ! i) = 0"
    proof (cases "Suc i < length rs")
      case True then show ?thesis using I(4) \<open>i < length rs\<close> by (simp add: nth_append)
    next
      case False
      with \<open>i < length rs\<close> have "i = length rs - 1" by simp
      then show ?thesis using last0 I(1) \<open>i < length rs\<close> by (simp add: nth_append last_conv_nth)
    qed
  qed
  have c: "stop ((rs @ [r2]) ! 0) = 0" using I(1,5) by (simp add: nth_append)
  have d: "N = (int (length (rs @ [r2])) - 1) * maxW + 0 + fneeded st"
    using I(7) full by (simp add: algebra_simps)
  show ?thesis
    unfolding pagesInv_def Let_def rs'
    using a b c d pos nn I(1) st2
    by (simp add: np)
qed


lemma pagesInv_fillStep:
  assumes inv: "pagesInv maxW N st" and lt: "finPacket st < maxW" and pos: "0 < maxW"
    and nn: "0 \<le> fneeded (fillStep ws imp lns flag maxW ncab st)"
  shows "pagesInv maxW N (fillStep ws imp lns flag maxW ncab st) \<and>
    (fneeded (fillStep ws imp lns flag maxW ncab st) \<noteq> 0 \<longrightarrow>
       finPacket (fillStep ws imp lns flag maxW ncab st) < maxW)"
proof -
  define st1 where "st1 = cablesToLink ws lns flag maxW [0..<ncab] st"
  have inv1: "pagesInv maxW N st1" unfolding st1_def by (rule pagesInv_cablesToLink [OF inv lt])
  then have le: "finPacket st1 \<le> maxW" by (simp add: pagesInv_def Let_def)
  show ?thesis
  proof (cases "fneeded st1 \<noteq> 0 \<and> finPacket st1 \<ge> maxW")
    case True
    then have fs: "fillStep ws imp lns flag maxW ncab st = newPage imp lns maxW st1"
      by (simp add: fillStep_def Let_def st1_def)
    have "fneeded (newPage imp lns maxW st1) = fneeded st1" by (simp add: newPage_def Let_def)
    with nn fs True have "0 < fneeded st1" by simp
    from pagesInv_newPage [OF inv1 _ this pos, of imp lns] True le fs show ?thesis by simp
  next
    case False
    then have fs: "fillStep ws imp lns flag maxW ncab st = st1"
      by (auto simp add: fillStep_def Let_def st1_def)
    show ?thesis using inv1 False le by (auto simp: fs)
  qed
qed

lemma pagesInv_fillPages:
  "fillPages ws imp lns flag maxW ncab st = Inr stf \<Longrightarrow> pagesInv maxW N st \<Longrightarrow>
   finPacket st < maxW \<Longrightarrow> 0 < maxW \<Longrightarrow> pagesInv maxW N stf \<and> fneeded stf = 0"
proof (induction ws imp lns flag maxW ncab st rule: fillPages.induct)
  case (1 ws imp lns flag maxW ncab st)
  define st1 where "st1 = fillStep ws imp lns flag maxW ncab st"
  from fillPages_Inr [OF "1.prems"(1)]
  consider (stop) "fneeded st1 = 0" "stf = st1"
    | (rec) "fneeded st1 \<noteq> 0" "unusedTotal st1 < unusedTotal st"
        "fillPages ws imp lns flag maxW ncab st1 = Inr stf"
    by (auto simp: st1_def)
  then show ?case
  proof cases
    case stop
    with pagesInv_fillStep [OF "1.prems"(2,3,4), of ws imp lns flag ncab]
    show ?thesis by (simp add: st1_def)
  next
    case rec
    have "0 \<le> fneeded st1" by (rule fillPages_needed_nonneg [OF rec(3)])
    with pagesInv_fillStep [OF "1.prems"(2,3,4), of ws imp lns flag ncab]
    have "pagesInv maxW N st1" "finPacket st1 < maxW" using rec(1) by (simp_all add: st1_def)
    from "1.IH" [OF st1_def rec(1) rec(2) rec(3) this "1.prems"(4)] show ?thesis .
  qed
qed

lemma maxGBTWordsPerPacket_triggerRDH: "maxGBTWordsPerPacket (triggerRDH M W ir) = 506"
  by (simp add: maxGBTWordsPerPacket_def triggerRDH_def defaultRDH_def MaxGBTPacketBytes_def
      GBTPaddedWordLength_def)

lemma linkChunks_inv:
  assumes "linkChunks M W ws imp rdh info hwids cables il lns ntrig = Inr st"
    and pos: "0 < maxGBTWordsPerPacket rdh"
  shows "pagesInv (maxGBTWordsPerPacket rdh) (countGBTWords lns cables (nCablesRU info)) st \<and>
         fneeded st = 0"
proof -
  define needed where "needed = countGBTWords lns cables (nCablesRU info)"
  define rdh0 where "rdh0 = firstPageRDH M ws imp rdh info il needed"
  define st0 where "st0 = \<lparr>fcables = cables,
                 fchunks = [RDHChunk rdh0, HeaderChunk (pageCnt rdh0) lns],
                 frdh = rdh0, fneeded = needed, finPacket = 0, fnTriggers = ntrig + 1\<rparr>"
  from assms(1) obtain stf where
    fp: "fillPages ws imp lns (\<lambda>icab. getGBTHeaderRUType M (ruType info) (hwids ! icab))
           (maxGBTWordsPerPacket rdh) (nCablesRU info) st0 = Inr stf"
    and st: "st = stf\<lparr>fchunks := fchunks stf @ [TrailerChunk lns (2 ^ PacketDone W)]\<rparr>"
    by (auto simp: linkChunks_def Let_def bindF_def st0_def rdh0_def needed_def split: sum.splits)
  have r0: "pageCnt rdh0 = 0" "stop rdh0 = 0"
    by (simp_all add: rdh0_def firstPageRDH_def Let_def)
  have inv0: "pagesInv (maxGBTWordsPerPacket rdh) needed st0"
    using pos r0 by (simp add: pagesInv_def st0_def)
  from pagesInv_fillPages [OF fp inv0 _ pos] pos
  have "pagesInv (maxGBTWordsPerPacket rdh) needed stf" "fneeded stf = 0"
    by (simp_all add: st0_def)
  then show ?thesis
    by (simp add: st pagesInv_def Let_def chunkRDHs_append needed_def)
qed



lemma cablesToLink_simps2:
  "cablesToLink ws lns flag maxW (icab # rest) st =
     (if servesLane lns icab \<and> getUnusedSize (fcables st ! icab) \<noteq> 0 then
        (let cable = fcables st ! icab;
             nb9 = min 9 (getUnusedSize cable);
             st' = st\<lparr>fchunks := fchunks st @
                        [DataChunk ((take nb9 (unusedBytes cable) @ replicate (ws - nb9) 0)[9 := flag icab])],
                      fcables := (fcables st)[icab := setPtr (ptr cable + nb9) cable],
                      fneeded := fneeded st - 1, finPacket := finPacket st + 1\<rparr>
         in if finPacket st' = maxW then st' else cablesToLink ws lns flag maxW rest st')
      else cablesToLink ws lns flag maxW rest st)"
  by (simp add: Let_def min_def)

lemma cablesToLink_skip:
  "\<not> (servesLane lns icab \<and> getUnusedSize (fcables st ! icab) \<noteq> 0) \<Longrightarrow>
   cablesToLink ws lns flag maxW (icab # rest) st = cablesToLink ws lns flag maxW rest st"
  by (auto simp: Let_def)



lemma wordsLeft_setPtr:
  assumes "getUnusedSize c \<noteq> 0"
  shows "Suc (wordsLeft (setPtr (ptr c + min 9 (getUnusedSize c)) c)) = wordsLeft c"
  using assms by (auto simp: wordsLeft_def getUnusedSize_def setPtr_def min_def)

lemma remaining_update_other:
  "icab \<notin> set L \<Longrightarrow> remaining lns L (cables[icab := c]) = remaining lns L cables"
  by (induction L) (auto simp: remaining_def)

lemma remaining_update:
  assumes "distinct L" "icab \<in> set L" "icab < length cables" "servesLane lns icab"
    "getUnusedSize (cables ! icab) \<noteq> 0"
  shows "Suc (remaining lns L
           (cables[icab := setPtr (ptr (cables ! icab) + min 9 (getUnusedSize (cables ! icab)))
              (cables ! icab)])) = remaining lns L cables"
  using assms
proof (induction L)
  case Nil then show ?case by simp
next
  case (Cons a L)
  show ?case
  proof (cases "a = icab")
    case True
    with Cons.prems have "icab \<notin> set L" by simp
    from remaining_update_other [OF this, of lns cables] wordsLeft_setPtr [OF Cons.prems(5)]
    show ?thesis using True Cons.prems(3,4) by (simp add: remaining_def)
  next
    case False
    with Cons have "Suc (remaining lns L
           (cables[icab := setPtr (ptr (cables ! icab) + min 9 (getUnusedSize (cables ! icab)))
              (cables ! icab)])) = remaining lns L cables" by simp
    then show ?thesis using False by (simp add: remaining_def)
  qed
qed

lemma unusedTotal_update:
  assumes "icab < length (fcables st)" "getUnusedSize (fcables st ! icab) \<noteq> 0"
  shows "sum_list (map getUnusedSize ((fcables st)[icab := setPtr (ptr (fcables st ! icab) +
            min 9 (getUnusedSize (fcables st ! icab))) (fcables st ! icab)]))
         < sum_list (map getUnusedSize (fcables st))"
proof -
  have "getUnusedSize (setPtr (ptr (fcables st ! icab) +
            min 9 (getUnusedSize (fcables st ! icab))) (fcables st ! icab))
        < getUnusedSize (fcables st ! icab)"
    using assms(2) by (auto simp: getUnusedSize_def setPtr_def min_def)
  moreover have "\<And>xs i (y::PayLoadCont). i < length xs \<Longrightarrow> getUnusedSize y < getUnusedSize (xs ! i) \<Longrightarrow>
      sum_list (map getUnusedSize (xs[i := y])) < sum_list (map getUnusedSize xs)"
  proof -
    fix xs :: "PayLoadCont list" and i y
    show "i < length xs \<Longrightarrow> getUnusedSize y < getUnusedSize (xs ! i) \<Longrightarrow>
      sum_list (map getUnusedSize (xs[i := y])) < sum_list (map getUnusedSize xs)"
    proof (induction xs arbitrary: i)
      case Nil then show ?case by simp
    next
      case (Cons a xs) then show ?case by (cases i) auto
    qed
  qed
  ultimately show ?thesis using assms(1) by blast
qed

lemma cablesToLink_count:
  assumes "distinct L" "set cs \<subseteq> set L" "\<forall>i\<in>set L. i < length (fcables st)"
  shows "int (remaining lns L (fcables (cablesToLink ws lns flag maxW cs st))) +
           finPacket (cablesToLink ws lns flag maxW cs st)
         = int (remaining lns L (fcables st)) + finPacket st \<and>
         length (fcables (cablesToLink ws lns flag maxW cs st)) = length (fcables st) \<and>
         unusedTotal (cablesToLink ws lns flag maxW cs st) \<le> unusedTotal st \<and>
         (finPacket st < finPacket (cablesToLink ws lns flag maxW cs st) \<longrightarrow>
            unusedTotal (cablesToLink ws lns flag maxW cs st) < unusedTotal st)"
  using assms
proof (induction cs arbitrary: st)
  case Nil then show ?case by simp
next
  case (Cons icab rest)
  show ?case
  proof (cases "servesLane lns icab \<and> getUnusedSize (fcables st ! icab) \<noteq> 0")
    case False
    then have "cablesToLink ws lns flag maxW (icab # rest) st = cablesToLink ws lns flag maxW rest st"
      by (rule cablesToLink_skip)
    then show ?thesis using Cons.IH [of st] Cons.prems by simp
  next
    case True
    define cable where "cable = fcables st ! icab"
    define nb9 where "nb9 = min 9 (getUnusedSize cable)"
    define st' where "st' = st\<lparr>fchunks := fchunks st @
        [DataChunk ((take nb9 (unusedBytes cable) @ replicate (ws - nb9) 0)[9 := flag icab])],
      fcables := (fcables st)[icab := setPtr (ptr cable + nb9) cable],
      fneeded := fneeded st - 1, finPacket := finPacket st + 1\<rparr>"
    have step: "cablesToLink ws lns flag maxW (icab # rest) st =
      (if finPacket st' = maxW then st' else cablesToLink ws lns flag maxW rest st')"
      using True by (subst cablesToLink_simps2) (simp add: Let_def st'_def nb9_def cable_def)
    have mem: "icab \<in> set L" "icab < length (fcables st)" using Cons.prems by auto
    have rem: "Suc (remaining lns L (fcables st')) = remaining lns L (fcables st)"
      using remaining_update [OF Cons.prems(1) mem True [THEN conjunct1] True [THEN conjunct2]]
      by (simp add: st'_def nb9_def cable_def)
    have ut: "unusedTotal st' < unusedTotal st"
      using unusedTotal_update [OF mem(2) True [THEN conjunct2]]
      by (simp add: unusedTotal_def st'_def nb9_def cable_def)
    have p: "finPacket st' = finPacket st + 1" "length (fcables st') = length (fcables st)"
      by (simp_all add: st'_def)
    show ?thesis
    proof (cases "finPacket st' = maxW")
      case True
      then show ?thesis using step rem ut p by simp
    next
      case False
      have "\<forall>i\<in>set L. i < length (fcables st')" using Cons.prems(3) p(2) by simp
      from Cons.IH [OF Cons.prems(1) _ this] Cons.prems(2)
      show ?thesis using step rem ut p False by auto
    qed
  qed
qed

lemma cablesToLink_progress:
  assumes "\<exists>icab\<in>set cs. servesLane lns icab \<and> getUnusedSize (fcables st ! icab) \<noteq> 0"
  shows "finPacket st < finPacket (cablesToLink ws lns flag maxW cs st)"
  using assms
proof (induction cs arbitrary: st)
  case Nil then show ?case by simp
next
  case (Cons icab rest)
  show ?case
  proof (cases "servesLane lns icab \<and> getUnusedSize (fcables st ! icab) \<noteq> 0")
    case False
    then have eq: "cablesToLink ws lns flag maxW (icab # rest) st = cablesToLink ws lns flag maxW rest st"
      by (rule cablesToLink_skip)
    from False Cons.prems have "\<exists>i\<in>set rest. servesLane lns i \<and> getUnusedSize (fcables st ! i) \<noteq> 0"
      by auto
    from Cons.IH [OF this] eq show ?thesis by simp
  next
    case True
    define cable where "cable = fcables st ! icab"
    define nb9 where "nb9 = min 9 (getUnusedSize cable)"
    define st' where "st' = st\<lparr>fchunks := fchunks st @
        [DataChunk ((take nb9 (unusedBytes cable) @ replicate (ws - nb9) 0)[9 := flag icab])],
      fcables := (fcables st)[icab := setPtr (ptr cable + nb9) cable],
      fneeded := fneeded st - 1, finPacket := finPacket st + 1\<rparr>"
    have step: "cablesToLink ws lns flag maxW (icab # rest) st =
      (if finPacket st' = maxW then st' else cablesToLink ws lns flag maxW rest st')"
      using True by (subst cablesToLink_simps2) (simp add: Let_def st'_def nb9_def cable_def)
    have "finPacket st' \<le> finPacket (cablesToLink ws lns flag maxW rest st')"
      using cablesToLink_props [of ws lns flag maxW rest st'] by simp
    then show ?thesis using step by (simp add: st'_def)
  qed
qed


lemma remaining_pos:
  assumes "0 < remaining lns L cables"
  shows "\<exists>icab\<in>set L. servesLane lns icab \<and> getUnusedSize (cables ! icab) \<noteq> 0"
proof (rule ccontr)
  assume "\<not> ?thesis"
  then have "\<forall>icab\<in>set L. (if servesLane lns icab then wordsLeft (cables ! icab) else 0) = 0"
    by (auto simp: wordsLeft_def)
  then have "remaining lns L cables = 0" by (simp add: remaining_def)
  with assms show False by simp
qed

lemma fillPages_total:
  assumes "fneeded st = int (remaining lns [0..<ncab] (fcables st))" "finPacket st < maxW"
    "0 < maxW" "ncab \<le> length (fcables st)"
  shows "\<exists>stf. fillPages ws imp lns flag maxW ncab st = Inr stf"
  using assms
proof (induction "unusedTotal st" arbitrary: st rule: less_induct)
  case less
  define st1 where "st1 = cablesToLink ws lns flag maxW [0..<ncab] st"
  define st2 where "st2 = fillStep ws imp lns flag maxW ncab st"
  have inL: "\<forall>i\<in>set [0..<ncab]. i < length (fcables st)" using less.prems(4) by simp
  from cablesToLink_count [OF _ _ inL, of "[0..<ncab]" lns ws flag maxW]
  have cnt: "int (remaining lns [0..<ncab] (fcables st1)) + finPacket st1
         = int (remaining lns [0..<ncab] (fcables st)) + finPacket st"
    "length (fcables st1) = length (fcables st)"
    "unusedTotal st1 \<le> unusedTotal st"
    "finPacket st < finPacket st1 \<longrightarrow> unusedTotal st1 < unusedTotal st"
    by (simp_all add: st1_def)
  from cablesToLink_props [of ws lns flag maxW "[0..<ncab]" st]
  have pr: "finPacket st1 + fneeded st1 = finPacket st + fneeded st"
    "finPacket st \<le> finPacket st1" "finPacket st1 \<le> maxW"
    using less.prems(2) by (simp_all add: st1_def)
  have n1: "fneeded st1 = int (remaining lns [0..<ncab] (fcables st1))"
    using cnt(1) pr(1) less.prems(1) by simp
  have st2_eq: "st2 = (if fneeded st1 \<noteq> 0 \<and> finPacket st1 \<ge> maxW
         then newPage imp lns maxW st1 else st1)"
    by (simp add: st2_def st1_def fillStep_def Let_def)
  have c2: "fcables st2 = fcables st1" "fneeded st2 = fneeded st1"
    by (simp_all add: st2_eq newPage_def Let_def)
  show ?case
  proof (cases "fneeded st2 = 0")
    case True
    then show ?thesis by (subst fillPages.simps) (simp add: st2_def Let_def)
  next
    case False
    then have "0 < remaining lns [0..<ncab] (fcables st1)" using n1 c2 by simp
    then have "0 < remaining lns [0..<ncab] (fcables st)" using cnt(1) pr(2) by linarith
    from cablesToLink_progress [OF remaining_pos [OF this], of ws flag maxW]
    have "finPacket st < finPacket st1" by (simp add: st1_def)
    with cnt(4) have dec: "unusedTotal st2 < unusedTotal st"
      by (simp add: unusedTotal_def c2)
    have lt2: "finPacket st2 < maxW"
      using False c2 pr(3) less.prems(3) by (auto simp: st2_eq newPage_def Let_def)
    have "\<exists>stf. fillPages ws imp lns flag maxW ncab st2 = Inr stf"
      using less.hyps [OF dec _ lt2 less.prems(3)] n1 c2 cnt(2) less.prems(4) by simp
    then show ?thesis using False dec by (subst fillPages.simps) (simp add: st2_def Let_def)
  qed
qed

lemma fold_add_sum:
  "fold (\<lambda>i n. if P i then n + g i else n) xs (a::int) =
     a + sum_list (map (\<lambda>i. if P i then g i else 0) xs)"
  by (induction xs arbitrary: a) auto

lemma int_sum_list_map: "int (sum_list (map f xs)) = sum_list (map (\<lambda>i. int (f i)) xs)"
  by (induction xs) auto

lemma wordsOfCable_fresh: "ptr c = 0 \<Longrightarrow> wordsOfCable c = int (wordsLeft c)"
  by (auto simp: wordsOfCable_def wordsLeft_def getSize_def getUnusedSize_def Let_def)

lemma countGBTWords_fresh:
  assumes "\<forall>icab<ncab. servesLane lns icab \<longrightarrow> ptr (cables ! icab) = 0"
  shows "countGBTWords lns cables ncab = int (remaining lns [0..<ncab] cables)"
proof -
  have "countGBTWords lns cables ncab =
     sum_list (map (\<lambda>i. if servesLane lns i then wordsOfCable (cables ! i) else 0) (rev [0..<ncab]))"
    by (simp add: countGBTWords_def fold_add_sum)
  also have "\<dots> = sum_list (map (\<lambda>i. if servesLane lns i then wordsOfCable (cables ! i) else 0) [0..<ncab])"
    by (simp add: rev_map [symmetric])
  also have "\<dots> = sum_list (map (\<lambda>i. int (if servesLane lns i then wordsLeft (cables ! i) else 0)) [0..<ncab])"
    using assms by (intro arg_cong [where f = sum_list] map_cong) (auto simp: wordsOfCable_fresh)
  also have "\<dots> = int (remaining lns [0..<ncab] cables)"
    by (simp add: remaining_def int_sum_list_map)
  finally show ?thesis .
qed

lemma linkChunks_total:
  assumes "\<forall>icab<nCablesRU info. servesLane lns icab \<longrightarrow> ptr (cables ! icab) = 0"
    "nCablesRU info \<le> length cables" "0 < maxGBTWordsPerPacket rdh"
  shows "\<exists>st. linkChunks M W ws imp rdh info hwids cables il lns ntrig = Inr st"
proof -
  define needed where "needed = countGBTWords lns cables (nCablesRU info)"
  define rdh0 where "rdh0 = firstPageRDH M ws imp rdh info il needed"
  define st0 where "st0 = \<lparr>fcables = cables,
                 fchunks = [RDHChunk rdh0, HeaderChunk (pageCnt rdh0) lns],
                 frdh = rdh0, fneeded = needed, finPacket = 0, fnTriggers = ntrig + 1\<rparr>"
  have "\<exists>stf. fillPages ws imp lns (\<lambda>icab. getGBTHeaderRUType M (ruType info) (hwids ! icab))
           (maxGBTWordsPerPacket rdh) (nCablesRU info) st0 = Inr stf"
    by (rule fillPages_total)
       (use assms countGBTWords_fresh [OF assms(1)] in \<open>simp_all add: st0_def needed_def\<close>)
  then show ?thesis
    by (auto simp: linkChunks_def Let_def bindF_def st0_def rdh0_def needed_def)
qed

text \<open>
  Claim C2, as the code has it. For every link and every trigger written by
  \<^verbatim>\<open>fillRULinks\<close>, with \<open>N\<close> the number of GBT words the link needs: there are
  \<open>(N - 1) div 506 + 1\<close> pages (one page for \<open>N = 0\<close>), their page counters are
  \<open>0, 1, 2, ...\<close> in order, every page but the last has \<open>stop = 0\<close>, the first page has
  \<open>stop = 0\<close> also when it is the only one, and the last of several pages has \<open>stop = 1\<close>
  when \<open>N\<close> is not a multiple of the 506 words of a full packet.
\<close>

theorem link_pages_counters_and_stop:
  assumes "linkChunks M W ws imp (triggerRDH M W ir) info hwids cables il lns ntrig = Inr st"
  shows "chunkRDHs (fchunks st) \<noteq> [] \<and>
     int (length (chunkRDHs (fchunks st))) =
       (if countGBTWords lns cables (nCablesRU info) = 0 then 1
        else (countGBTWords lns cables (nCablesRU info) - 1) div 506 + 1) \<and>
     (\<forall>i<length (chunkRDHs (fchunks st)). pageCnt (chunkRDHs (fchunks st) ! i) = of_nat i) \<and>
     (\<forall>i. Suc i < length (chunkRDHs (fchunks st)) \<longrightarrow> stop (chunkRDHs (fchunks st) ! i) = 0) \<and>
     stop (chunkRDHs (fchunks st) ! 0) = 0 \<and>
     (1 < length (chunkRDHs (fchunks st)) \<and>
      countGBTWords lns cables (nCablesRU info) mod 506 \<noteq> 0 \<longrightarrow>
        stop (last (chunkRDHs (fchunks st))) = 1)"
proof -
  define rs where "rs = chunkRDHs (fchunks st)"
  define N where "N = countGBTWords lns cables (nCablesRU info)"
  have mx: "maxGBTWordsPerPacket (triggerRDH M W ir) = 506"
    by (rule maxGBTWordsPerPacket_triggerRDH)
  from linkChunks_inv [OF assms] mx
  have inv: "pagesInv 506 N st" and z: "fneeded st = 0" by (simp_all add: N_def)
  from inv have I: "rs \<noteq> []"
    "\<forall>i<length rs. pageCnt (rs ! i) = of_nat i"
    "\<forall>i. Suc i < length rs \<longrightarrow> stop (rs ! i) = 0" "stop (rs ! 0) = 0"
    "0 \<le> finPacket st" "finPacket st \<le> 506"
    "stop (last rs) \<noteq> 0 \<longrightarrow> stop (last rs) = 1"
    "1 < length rs \<and> stop (last rs) = 0 \<longrightarrow> 506 \<le> finPacket st"
    "1 < length rs \<longrightarrow> 0 < finPacket st"
    "N = (int (length rs) - 1) * 506 + finPacket st"
    using z by (simp_all add: pagesInv_def Let_def rs_def)
  have len: "int (length rs) = (if N = 0 then 1 else (N - 1) div 506 + 1)"
  proof (cases "1 < length rs")
    case False
    with I(1) have "length rs = 1" by (cases rs) auto
    then show ?thesis using I(5,6,10) by auto
  next
    case True
    with I(9) have f: "0 < finPacket st" by simp
    have "N - 1 = (int (length rs) - 1) * 506 + (finPacket st - 1)" using I(10) by simp
    then have "(N - 1) div 506 = int (length rs) - 1" using f I(6) by simp
    moreover have "N \<noteq> 0" using I(10) f True by auto
    ultimately show ?thesis by simp
  qed
  have stop1: "1 < length rs \<and> N mod 506 \<noteq> 0 \<longrightarrow> stop (last rs) = 1"
  proof (intro impI, elim conjE)
    assume a: "1 < length rs" "N mod 506 \<noteq> 0"
    show "stop (last rs) = 1"
    proof (rule ccontr)
      assume "stop (last rs) \<noteq> 1"
      with I(7) have "stop (last rs) = 0" by auto
      with I(8) a(1) I(6) have "finPacket st = 506" by simp
      with I(10) have "N = int (length rs) * 506" by simp
      with a(2) show False by simp
    qed
  qed
  show ?thesis using I(1,2,3,4) len stop1 unfolding rs_def N_def by blast
qed

text \<open>
  The claim as stated fails for a trigger that fits in a single page: for a cable with
  two bytes of data the only page of the link has \<open>stop = 0\<close>.
\<close>

theorem single_page_stop_counterexample:
  "case linkChunks demoMapping demoWire 16 True
          (triggerRDH demoMapping demoWire \<lparr>bc = 42, orbit = 100\<rparr>)
          (getRUInfoSW demoMapping 0) [0] [\<lparr>buf = [0xE0, 0x2A], ptr = 0\<rparr>] 0 1 0 of
     Inl e \<Rightarrow> False
   | Inr st \<Rightarrow> map stop (chunkRDHs (fchunks st)) = [0] \<and>
        map pageCnt (chunkRDHs (fchunks st)) = [0]"
  by (simp add: linkChunks_def demoMapping_def countGBTWords_def servesLane_def wordsOfCable_def
      getSize_def getUnusedSize_def fillPages.simps fillStep_def Let_def bindF_def
      maxGBTWordsPerPacket_triggerRDH firstPageRDH_def unusedBytes_def setPtr_def)

theorem link_pages_counters_and_stop_witness:
  "case linkChunks demoMapping demoWire 16 True
          (triggerRDH demoMapping demoWire \<lparr>bc = 42, orbit = 100\<rparr>)
          (getRUInfoSW demoMapping 0) [0] [\<lparr>buf = replicate 4563 0, ptr = 0\<rparr>] 0 1 0 of
     Inl e \<Rightarrow> False
   | Inr st \<Rightarrow> length (chunkRDHs (fchunks st)) = 2 \<and>
       pageCnt (chunkRDHs (fchunks st) ! 0) = 0 \<and> pageCnt (chunkRDHs (fchunks st) ! 1) = 1 \<and>
       stop (chunkRDHs (fchunks st) ! 0) = 0 \<and> stop (chunkRDHs (fchunks st) ! 1) = 1"
proof -
  let ?info = "getRUInfoSW demoMapping 0"
  let ?cables = "[\<lparr>buf = replicate 4563 (0::byte), ptr = 0\<rparr>]"
  let ?rdh = "triggerRDH demoMapping demoWire \<lparr>bc = 42, orbit = 100\<rparr>"
  have nc: "nCablesRU ?info = 1" by (simp add: demoMapping_def)
  have N: "countGBTWords 1 ?cables (nCablesRU ?info) = 507"
    by (simp add: nc countGBTWords_def servesLane_def wordsOfCable_def getSize_def)
  have "\<exists>st. linkChunks demoMapping demoWire 16 True ?rdh ?info [0] ?cables 0 1 0 = Inr st"
    by (rule linkChunks_total) (simp_all add: nc maxGBTWordsPerPacket_triggerRDH)
  then obtain st where st: "linkChunks demoMapping demoWire 16 True ?rdh ?info [0] ?cables 0 1 0 = Inr st"
    by blast
  from link_pages_counters_and_stop [OF st] N
  have len: "length (chunkRDHs (fchunks st)) = 2"
    and pc: "\<forall>i<length (chunkRDHs (fchunks st)). pageCnt (chunkRDHs (fchunks st) ! i) = of_nat i"
    and s0: "stop (chunkRDHs (fchunks st) ! 0) = 0"
    and s1: "1 < length (chunkRDHs (fchunks st)) \<longrightarrow> stop (last (chunkRDHs (fchunks st))) = 1"
    by simp_all
  from len have ne: "chunkRDHs (fchunks st) \<noteq> []" by auto
  have "stop (chunkRDHs (fchunks st) ! 1) = 1" using s1 len by (simp add: last_conv_nth ne)
  moreover have "pageCnt (chunkRDHs (fchunks st) ! 0) = 0" "pageCnt (chunkRDHs (fchunks st) ! 1) = 1"
    using pc len by auto
  ultimately show ?thesis using st len s0 by simp
qed



section \<open>The state left by the encoder\<close>


lemma bindF_Inr:
  "bindF m f = Inr y \<Longrightarrow> \<exists>x. m = Inr x \<and> f x = Inr y"
  by (cases m) (auto simp: bindF_def)

lemma cablesToLink_frame:
  "length (fcables (cablesToLink ws lns flag maxW cs st)) = length (fcables st) \<and>
   (\<forall>i. i \<notin> set cs \<longrightarrow> fcables (cablesToLink ws lns flag maxW cs st) ! i = fcables st ! i)"
proof (induction cs arbitrary: st)
  case Nil then show ?case by simp
next
  case (Cons icab rest)
  show ?case
  proof (cases "servesLane lns icab \<and> getUnusedSize (fcables st ! icab) \<noteq> 0")
    case False
    from cablesToLink_skip [OF this] Cons.IH [of st] show ?thesis by simp
  next
    case True
    define cable where "cable = fcables st ! icab"
    define nb9 where "nb9 = min 9 (getUnusedSize cable)"
    define st' where "st' = st\<lparr>fchunks := fchunks st @
        [DataChunk ((take nb9 (unusedBytes cable) @ replicate (ws - nb9) 0)[9 := flag icab])],
      fcables := (fcables st)[icab := setPtr (ptr cable + nb9) cable],
      fneeded := fneeded st - 1, finPacket := finPacket st + 1\<rparr>"
    have step: "cablesToLink ws lns flag maxW (icab # rest) st =
      (if finPacket st' = maxW then st' else cablesToLink ws lns flag maxW rest st')"
      using True by (subst cablesToLink_simps2) (simp add: Let_def st'_def nb9_def cable_def)
    have p: "length (fcables st') = length (fcables st)"
      "\<forall>i. i \<noteq> icab \<longrightarrow> fcables st' ! i = fcables st ! i"
      by (simp_all add: st'_def)
    show ?thesis using step p Cons.IH [of st'] by auto
  qed
qed

lemma fillStep_frame:
  "length (fcables (fillStep ws imp lns flag maxW ncab st)) = length (fcables st) \<and>
   (\<forall>i. ncab \<le> i \<longrightarrow> fcables (fillStep ws imp lns flag maxW ncab st) ! i = fcables st ! i)"
  using cablesToLink_frame [of ws lns flag maxW "[0..<ncab]" st]
  by (auto simp: fillStep_def Let_def newPage_def)

lemma fillPages_frame:
  "fillPages ws imp lns flag maxW ncab st = Inr stf \<Longrightarrow>
   length (fcables stf) = length (fcables st) \<and>
   (\<forall>i. ncab \<le> i \<longrightarrow> fcables stf ! i = fcables st ! i)"
proof (induction ws imp lns flag maxW ncab st rule: fillPages.induct)
  case (1 ws imp lns flag maxW ncab st)
  define st1 where "st1 = fillStep ws imp lns flag maxW ncab st"
  have fr: "length (fcables st1) = length (fcables st)"
    "\<forall>i. ncab \<le> i \<longrightarrow> fcables st1 ! i = fcables st ! i"
    using fillStep_frame [of ws imp lns flag maxW ncab st] by (simp_all add: st1_def)
  from fillPages_Inr [OF "1.prems"]
  consider (stop) "fneeded st1 = 0" "stf = st1"
    | (rec) "fneeded st1 \<noteq> 0" "unusedTotal st1 < unusedTotal st"
        "fillPages ws imp lns flag maxW ncab st1 = Inr stf"
    by (auto simp: st1_def)
  then show ?case
  proof cases
    case stop
    then show ?thesis using fr by simp
  next
    case rec
    from "1.IH" [OF st1_def rec(1) rec(2) rec(3)] fr show ?thesis by simp
  qed
qed

lemma linkChunks_frame:
  assumes "linkChunks M W ws imp rdh info hwids cables il lns ntrig = Inr st"
  shows "length (fcables st) = length cables \<and>
         (\<forall>i. nCablesRU info \<le> i \<longrightarrow> fcables st ! i = cables ! i)"
proof -
  from assms obtain stf where
    fp: "fillPages ws imp lns (\<lambda>icab. getGBTHeaderRUType M (ruType info) (hwids ! icab))
           (maxGBTWordsPerPacket rdh) (nCablesRU info)
           \<lparr>fcables = cables,
            fchunks = [RDHChunk (firstPageRDH M ws imp rdh info il (countGBTWords lns cables (nCablesRU info))),
              HeaderChunk (pageCnt (firstPageRDH M ws imp rdh info il (countGBTWords lns cables (nCablesRU info)))) lns],
            frdh = firstPageRDH M ws imp rdh info il (countGBTWords lns cables (nCablesRU info)),
            fneeded = countGBTWords lns cables (nCablesRU info), finPacket = 0,
            fnTriggers = ntrig + 1\<rparr> = Inr stf"
    and st: "st = stf\<lparr>fchunks := fchunks stf @ [TrailerChunk lns (2 ^ PacketDone W)]\<rparr>"
    by (auto simp: linkChunks_def Let_def bindF_def split: sum.splits)
  from fillPages_frame [OF fp] show ?thesis by (simp add: st)
qed

lemma fillLinksFrom_frame:
  "fillLinksFrom M W ws imp rdh info il ls ruData mp = Inr (ruData', mp') \<Longrightarrow>
   nCables ruData' = nCables ruData \<and> ruInfo ruData' = ruInfo ruData \<and>
   length (cableData ruData') = length (cableData ruData) \<and>
   (\<forall>i. nCablesRU info \<le> i \<longrightarrow> cableData ruData' ! i = cableData ruData ! i)"
proof (induction M W ws imp rdh info il ls ruData mp rule: fillLinksFrom.induct)
  case (1 M W ws imp rdh info il ruData mp)
  then show ?case by simp
next
  case (2 M W ws imp rdh info il rest ruData mp)
  then show ?case by simp
next
  case (3 M W ws imp rdh info il link rest ruData mp)
  from "3.prems" obtain st where
    lc: "linkChunks M W ws imp rdh info (cableHWID ruData) (cableData ruData) il
              (lanes link) (nTriggers link) = Inr st"
    and rec: "(let link' = link\<lparr>data := addFast (concat (map (chunkBytes W ws) (fchunks st))) (data link),
                          nTriggers := fnTriggers st\<rparr>;
              ruData1 = ruData\<lparr>cableData := fcables st, links := (links ruData)[il := Some link']\<rparr>
          in fillLinksFrom M W ws imp rdh info (Suc il) rest ruData1
               (if mp > nTriggers link' then nTriggers link' else mp)) = Inr (ruData', mp')"
    by (auto dest!: bindF_Inr)
  define link' where "link' = link\<lparr>data := addFast (concat (map (chunkBytes W ws) (fchunks st))) (data link),
                          nTriggers := fnTriggers st\<rparr>"
  define ruData1 where "ruData1 = ruData\<lparr>cableData := fcables st, links := (links ruData)[il := Some link']\<rparr>"
  from rec have rec': "fillLinksFrom M W ws imp rdh info (Suc il) rest ruData1
               (if mp > nTriggers link' then nTriggers link' else mp) = Inr (ruData', mp')"
    by (auto simp add: Let_def link'_def ruData1_def split: if_splits)
  from "3.IH" [OF link'_def ruData1_def rec'] linkChunks_frame [OF lc]
  show ?case by (simp add: ruData1_def)
qed

lemma fold_clear:
  "length (fold (\<lambda>i cs. cs[i := clearCont (cs ! i)]) L cs) = length cs \<and>
   (\<forall>i. fold (\<lambda>i cs. cs[i := clearCont (cs ! i)]) L cs ! i =
      (if i \<in> set L \<and> i < length cs then emptyCont else cs ! i))"
proof (induction L arbitrary: cs)
  case Nil then show ?case by simp
next
  case (Cons a L)
  have cc: "\<And>c. clearCont c = emptyCont" by (simp add: clearCont_def emptyCont_def)
  have "\<And>i. (cs[a := emptyCont]) ! i = (if i = a \<and> i < length cs then emptyCont else cs ! i)"
    by (cases "a < length cs") (auto simp add: nth_list_update list_update_beyond)
  then show ?case using Cons.IH [of "cs[a := clearCont (cs ! a)]"]
    by (simp add: cc)
qed

lemma clearTrigger_props:
  "nCables (clearTrigger d) = 0 \<and> ruInfo (clearTrigger d) = ruInfo d \<and>
   length (cableData (clearTrigger d)) = length (cableData d) \<and>
   (\<forall>i. i < nCables d \<and> i < length (cableData d) \<longrightarrow> cableData (clearTrigger d) ! i = emptyCont) \<and>
   (\<forall>i. i < length (cableData d) \<and> cableData d ! i = emptyCont \<longrightarrow>
        cableData (clearTrigger d) ! i = emptyCont)"
  using fold_clear [of "rev [0..<nCables d]" "cableData d"]
  by (simp add: clearTrigger_def)

lemma fillRULinks_post:
  assumes "fillRULinks M W ws imp ir ruData = Inr (d, mp)"
  shows "\<exists>info. ruInfo ruData = Some info \<and> ruInfo d = Some info \<and> nCables d = 0 \<and>
     nChipsFired d = 0 \<and> length (cableData d) = length (cableData ruData) \<and>
     (\<forall>i<nCablesRU info. cableData d ! i = emptyCont) \<and>
     (\<forall>i. i < length (cableData ruData) \<and> cableData ruData ! i = emptyCont \<and> nCablesRU info \<le> i
        \<longrightarrow> cableData d ! i = emptyCont)"
proof -
  from assms obtain info where info: "ruInfo ruData = Some info"
    by (auto simp: fillRULinks_def split: option.splits)
  from assms info have rng: "nCablesRU info \<le> length (cableData ruData)"
    by (auto simp: fillRULinks_def split: if_splits)
  from assms info rng obtain d1 mp1 where
    fl: "fillLinksFrom M W ws imp (triggerRDH M W ir) info 0 (links ruData)
           (ruData\<lparr>nCables := nCablesRU info\<rparr>) dummyNPages = Inr (d1, mp1)"
    and d: "d = (clearTrigger d1)\<lparr>nChipsFired := 0\<rparr>"
    by (auto simp: fillRULinks_def split: if_splits dest!: bindF_Inr)
  from fillLinksFrom_frame [OF fl] have fr: "nCables d1 = nCablesRU info" "ruInfo d1 = Some info"
    "length (cableData d1) = length (cableData ruData)"
    "\<forall>i. nCablesRU info \<le> i \<longrightarrow> cableData d1 ! i = cableData ruData ! i"
    using info by simp_all
  from clearTrigger_props [of d1] fr rng show ?thesis
    by (intro exI [of _ info]) (auto simp: d info)
qed


lemma convertEmptyChips_frame:
  "convertEmptyChips M C ir info ks d = Inr d' \<Longrightarrow>
   ruInfo d' = ruInfo d \<and> nChipsFired d' = nChipsFired d \<and> chipsData d' = chipsData d \<and>
   length (cableData d') = length (cableData d) \<and>
   (\<forall>i. (\<forall>k\<in>set ks. cableSW (getChipOnRUInfo M (ruType info) k) \<noteq> i) \<longrightarrow>
        cableData d' ! i = cableData d ! i)"
proof (induction ks arbitrary: d)
  case Nil then show ?case by simp
next
  case (Cons k ks)
  define chip where "chip = getChipOnRUInfo M (ruType info) k"
  define d1 where "d1 = d\<lparr>cableHWID := (cableHWID d)[cableSW chip := cableHW chip],
                     cableData := (cableData d)
                       [cableSW chip :=
                          addFast (addEmptyChip C (chipOnModuleHW chip) (bc ir))
                            (cableData d ! cableSW chip)]\<rparr>"
  from Cons.prems have rec: "convertEmptyChips M C ir info ks d1 = Inr d'"
    by (auto simp: Let_def chip_def d1_def split: if_splits)
  from Cons.IH [OF rec] show ?case by (auto simp: d1_def chip_def)
qed

lemma convertChip_frame:
  "convertChip M C ir info chipData d = Inr d' \<Longrightarrow>
   ruInfo d' = ruInfo d \<and> nChipsFired d' = nChipsFired d \<and> chipsData d' = chipsData d \<and>
   length (cableData d') = length (cableData d) \<and>
   (\<forall>i. cableSW (getChipOnRUInfo M (ruType info) (chipID chipData)) \<noteq> i \<longrightarrow>
        cableData d' ! i = cableData d ! i)"
  by (auto simp: convertChip_def Let_def split: if_splits)

lemma convertFiredChips_frame:
  "convertFiredChips M C ir info ichs n2p d = Inr (d', n2p') \<Longrightarrow>
   ruInfo d' = ruInfo d \<and> nChipsFired d' = nChipsFired d \<and>
   length (cableData d') = length (cableData d) \<and>
   (\<forall>i. (\<forall>k. cableSW (getChipOnRUInfo M (ruType info) k) \<noteq> i) \<longrightarrow>
        cableData d' ! i = cableData d ! i)"
proof (induction ichs arbitrary: d n2p)
  case Nil then show ?case by simp
next
  case (Cons ich rest)
  define chipData where "chipData = chipsData d ! ich"
  from Cons.prems obtain d1 d2 where
    c1: "convertEmptyChips M C ir info [n2p..<chipID chipData] d = Inr d1"
    and c2: "convertChip M C ir info chipData d1 = Inr d2"
    and rec: "convertFiredChips M C ir info rest (chipID chipData + 1)
                (d2\<lparr>chipsData := (chipsData d2)[ich := clearChip chipData]\<rparr>) = Inr (d', n2p')"
    by (auto simp: Let_def chipData_def split: if_splits dest!: bindF_Inr)
  from Cons.IH [OF rec] convertEmptyChips_frame [OF c1] convertChip_frame [OF c2]
  show ?case by auto
qed


lemma convertRUs_post:
  "convertRUs M C W rs rd mp = Inr (rd', mp') \<Longrightarrow> distinct rs \<Longrightarrow>
   length (mRUDecodeVec rd') = length (mRUDecodeVec rd) \<and>
   (\<forall>r. r \<notin> set rs \<longrightarrow> mRUDecodeVec rd' ! r = mRUDecodeVec rd ! r) \<and>
   (\<forall>r\<in>set rs. r < length (mRUDecodeVec rd) \<and>
      triggerCleared M (mRUDecodeVec rd ! r) (mRUDecodeVec rd' ! r))"
proof (induction rs arbitrary: rd mp)
  case Nil then show ?case by simp
next
  case (Cons r rest)
  define d where "d = mRUDecodeVec rd ! r"
  from Cons.prems(1) have r: "r < length (mRUDecodeVec rd)" by (auto split: if_splits)
  from Cons.prems(1) r obtain info where info: "ruInfo d = Some info"
    by (auto simp: Let_def d_def split: option.splits)
  from Cons.prems(1) r info obtain d1 n2p d2 d3 mpr where
    c1: "convertFiredChips M C (mInteractionRecord rd) info [0..<nChipsFired d] 0 d = Inr (d1, n2p)"
    and c2: "convertEmptyChips M C (mInteractionRecord rd) info
                [n2p..<getNChipsOnRUType M (ruType info)] d1 = Inr d2"
    and c3: "fillRULinks M W (mGBTWordSize rd) (mImposeMaxPage rd) (mInteractionRecord rd) d2 = Inr (d3, mpr)"
    and rec: "convertRUs M C W rest
                (rd\<lparr>mCurRUDecodeID := int r + 1, mRUDecodeVec := (mRUDecodeVec rd)[r := d3]\<rparr>)
                (if mpr < mp then mpr else mp) = Inr (rd', mp')"
    by (auto simp: Let_def d_def dest!: bindF_Inr)
  from Cons.prems(2) have dist: "distinct rest" "r \<notin> set rest" by auto
  from Cons.IH [OF rec dist(1)] have IH:
    "length (mRUDecodeVec rd') = length (mRUDecodeVec rd)"
    "\<forall>q. q \<notin> set rest \<longrightarrow> mRUDecodeVec rd' ! q = (mRUDecodeVec rd)[r := d3] ! q"
    "\<forall>q\<in>set rest. q < length (mRUDecodeVec rd) \<and>
       triggerCleared M ((mRUDecodeVec rd)[r := d3] ! q) (mRUDecodeVec rd' ! q)"
    by simp_all
  have d3: "mRUDecodeVec rd' ! r = d3" using IH(2) dist(2) r by simp
  from convertFiredChips_frame [OF c1] convertEmptyChips_frame [OF c2]
  have fr: "ruInfo d2 = Some info" "length (cableData d2) = length (cableData d)"
    "\<forall>i. (\<forall>k. cableSW (getChipOnRUInfo M (ruType info) k) \<noteq> i) \<longrightarrow>
        cableData d2 ! i = cableData d ! i"
    using info by auto
  from fillRULinks_post [OF c3] fr(1) have post:
    "ruInfo d3 = Some info" "nCables d3 = 0" "nChipsFired d3 = 0"
    "length (cableData d3) = length (cableData d2)"
    "\<forall>i<nCablesRU info. cableData d3 ! i = emptyCont"
    "\<forall>i. i < length (cableData d2) \<and> cableData d2 ! i = emptyCont \<and> nCablesRU info \<le> i
        \<longrightarrow> cableData d3 ! i = emptyCont"
    by auto
  have tc: "triggerCleared M d d3"
    unfolding triggerCleared_def
  proof (intro exI [of _ info] conjI impI allI)
    fix i
    assume H: "(\<forall>k. cableSW (getChipOnRUInfo M (ruType info) k) < nCablesRU info) \<and>
         (\<forall>i. nCablesRU info \<le> i \<and> i < length (cableData d) \<longrightarrow> cableData d ! i = emptyCont)"
      and i: "i < length (cableData d3)"
    show "cableData d3 ! i = emptyCont"
    proof (cases "i < nCablesRU info")
      case True then show ?thesis using post(5) by simp
    next
      case False
      then have "\<forall>k. cableSW (getChipOnRUInfo M (ruType info) k) \<noteq> i" using H by auto
      then have "cableData d2 ! i = cableData d ! i" using fr(3) by simp
      then have "cableData d2 ! i = emptyCont" using H False i post(4) fr(2) by simp
      then show ?thesis using post(6) False i post(4) by simp
    qed
  qed (use post fr(2) in simp_all)
  have A: "length (mRUDecodeVec rd') = length (mRUDecodeVec rd)" by (rule IH(1))
  have B: "\<forall>q. q \<notin> set (r # rest) \<longrightarrow> mRUDecodeVec rd' ! q = mRUDecodeVec rd ! q"
    using IH(2) by simp
  have D: "\<forall>q\<in>set (r # rest). q < length (mRUDecodeVec rd) \<and>
      triggerCleared M (mRUDecodeVec rd ! q) (mRUDecodeVec rd' ! q)"
  proof (rule ballI)
    fix q assume q: "q \<in> set (r # rest)"
    show "q < length (mRUDecodeVec rd) \<and>
      triggerCleared M (mRUDecodeVec rd ! q) (mRUDecodeVec rd' ! q)"
    proof (cases "q = r")
      case True then show ?thesis using tc d3 r by (simp add: d_def)
    next
      case False
      with q have "q \<in> set rest" by simp
      with IH(3) have "q < length (mRUDecodeVec rd) \<and>
        triggerCleared M ((mRUDecodeVec rd)[r := d3] ! q) (mRUDecodeVec rd' ! q)"
        by blast
      then show ?thesis using False by simp
    qed
  qed
  from A B D show ?case by blast
qed



lemma map_cableData_update:
  "cableData d = cableData (v ! r) \<Longrightarrow> map cableData (v[r := d]) = map cableData v"
  by (cases "r < length v") (simp_all add: map_update list_update_beyond list_update_same_conv)

lemma getCreateRUDecode_cables:
  "getCreateRUDecode M ruSW rd = Inr (slot, rd') \<Longrightarrow>
   map cableData (mRUDecodeVec rd') = map cableData (mRUDecodeVec rd)"
  by (auto simp: getCreateRUDecode_def Let_def map_cableData_update split: if_splits)

lemma bookContainers_cables:
  "bookContainers M rs rd = Inr rd' \<Longrightarrow>
   map cableData (mRUDecodeVec rd') = map cableData (mRUDecodeVec rd)"
proof (induction rs arbitrary: rd)
  case Nil then show ?case by simp
next
  case (Cons r rest)
  from Cons.prems show ?case
    by (auto simp: Let_def map_cableData_update split: option.splits if_splits
        dest!: bindF_Inr Cons.IH getCreateRUDecode_cables)
qed

lemma placeDigits_cables:
  "placeDigits M lo hi digs (rd, cid, cur) = Inr (rd', cid', cur') \<Longrightarrow>
   map cableData (mRUDecodeVec rd') = map cableData (mRUDecodeVec rd)"
proof (induction digs arbitrary: rd cid cur)
  case Nil then show ?case by simp
next
  case (Cons dig rest)
  from Cons.prems show ?case
    by (auto simp: Let_def map_cableData_update split: option.splits if_splits
        dest!: bindF_Inr Cons.IH)
qed








section \<open>The state of the encoder between two triggers\<close>

lemma bookLoop_Inr:
  "bookLoop M lo hi rd = Inr rd' \<Longrightarrow>
   hi \<noteq> 0xFF \<and> bookContainers M [unat lo..<Suc (unat hi)] rd = Inr rd'"
  by (auto simp: bookLoop_def bindF_def split: if_splits sum.splits)

lemma map_chips_update:
  "chipsData d = chipsData (v ! r) \<Longrightarrow> nChipsFired d = nChipsFired (v ! r) \<Longrightarrow>
   map (\<lambda>d. (chipsData d, nChipsFired d)) (v[r := d]) = map (\<lambda>d. (chipsData d, nChipsFired d)) v"
  by (cases "r < length v") (simp_all add: map_update list_update_beyond list_update_same_conv)

lemma getCreateRUDecode_chips:
  "getCreateRUDecode M ruSW rd = Inr (slot, rd') \<Longrightarrow>
   map (\<lambda>d. (chipsData d, nChipsFired d)) (mRUDecodeVec rd') =
   map (\<lambda>d. (chipsData d, nChipsFired d)) (mRUDecodeVec rd)"
  by (auto simp: getCreateRUDecode_def Let_def map_chips_update split: if_splits)

lemma bookContainers_chips:
  "bookContainers M rs rd = Inr rd' \<Longrightarrow>
   map (\<lambda>d. (chipsData d, nChipsFired d)) (mRUDecodeVec rd') =
   map (\<lambda>d. (chipsData d, nChipsFired d)) (mRUDecodeVec rd)"
proof (induction rs arbitrary: rd)
  case Nil then show ?case by simp
next
  case (Cons r rest)
  from Cons.prems show ?case
    by (auto simp: Let_def map_chips_update split: option.splits if_splits
        dest!: bindF_Inr Cons.IH getCreateRUDecode_chips)
qed

text \<open>
  The digits go to chip buffers below the number of fired chips: the buffers from that
  number on are as before.
\<close>

lemma placeDigits_chips:
  "placeDigits M lo hi digs (rd, cid, cur) = Inr (rd', cid', cur') \<Longrightarrow>
   (\<forall>r k. cur = Some (r, k) \<longrightarrow> k < nChipsFired (mRUDecodeVec rd ! r)) \<Longrightarrow>
   length (mRUDecodeVec rd') = length (mRUDecodeVec rd) \<and>
   (\<forall>r. nChipsFired (mRUDecodeVec rd ! r) \<le> nChipsFired (mRUDecodeVec rd' ! r) \<and>
        length (chipsData (mRUDecodeVec rd' ! r)) = length (chipsData (mRUDecodeVec rd ! r)) \<and>
        (\<forall>k. nChipsFired (mRUDecodeVec rd' ! r) \<le> k \<longrightarrow>
             chipsData (mRUDecodeVec rd' ! r) ! k = chipsData (mRUDecodeVec rd ! r) ! k))"
proof (induction digs arbitrary: rd cid cur)
  case Nil then show ?case by simp
next
  case (Cons dig rest)
  let ?vec = "mRUDecodeVec rd"
  show ?case
  proof (cases "cid \<noteq> chipIndex dig")
    case True
    define chInfo where "chInfo = getChipInfoSW M (chipIndex dig)"
    show ?thesis
    proof (cases "ru chInfo < lo \<or> ru chInfo > hi")
      case skip: True
      with Cons.prems(1) True have "placeDigits M lo hi rest (rd, cid, cur) = Inr (rd', cid', cur')"
        by (simp add: Let_def chInfo_def)
      from Cons.IH [OF this Cons.prems(2)] show ?thesis .
    next
      case False
      define r where "r = ru chInfo"
      define d where "d = ?vec ! r"
      define k where "k = nChipsFired d"
      from Cons.prems(1) True False have rlen: "r < length ?vec" and klen: "k < length (chipsData d)"
        by (auto simp: Let_def chInfo_def r_def d_def k_def split: if_splits)
      define d1 where "d1 = d\<lparr>nChipsFired := k + 1,
         chipsData := (chipsData d)[k := (chipsData d ! k)\<lparr>chipID := chipIdOnRU (chOnRU chInfo)\<rparr>]\<rparr>"
      define d2 where "d2 = d1\<lparr>chipsData := (chipsData d1)
           [k := (chipsData d1 ! k)\<lparr>pixels := pixels (chipsData d1 ! k) @ [(row dig, col dig)]\<rparr>]\<rparr>"
      define rd2 where "rd2 = rd\<lparr>mCurRUDecodeID := int r, mRUDecodeVec := ?vec[r := d2]\<rparr>"
      from Cons.prems(1) True False rlen klen
      have rec: "placeDigits M lo hi rest (rd2, chipIndex dig, Some (r, k)) = Inr (rd', cid', cur')"
        by (simp add: Let_def chInfo_def [symmetric] r_def [symmetric] d_def [symmetric]
            k_def [symmetric] bindF_def rd2_def d2_def d1_def)
      have v2: "mRUDecodeVec rd2 = ?vec[r := d2]" by (simp add: rd2_def)
      have nf2: "nChipsFired d2 = k + 1" by (simp add: d2_def d1_def)
      have inv2: "\<forall>r' k'. Some (r, k) = Some (r', k') \<longrightarrow> k' < nChipsFired (mRUDecodeVec rd2 ! r')"
        using rlen by (simp add: v2 nf2)
      from Cons.IH [OF rec inv2] have IH:
        "length (mRUDecodeVec rd') = length ?vec"
        "\<And>q. nChipsFired (?vec[r := d2] ! q) \<le> nChipsFired (mRUDecodeVec rd' ! q)"
        "\<And>q. length (chipsData (mRUDecodeVec rd' ! q)) = length (chipsData (?vec[r := d2] ! q))"
        "\<And>q j. nChipsFired (mRUDecodeVec rd' ! q) \<le> j \<Longrightarrow>
             chipsData (mRUDecodeVec rd' ! q) ! j = chipsData (?vec[r := d2] ! q) ! j"
        by (simp_all add: v2)
      have len2: "length (chipsData d2) = length (chipsData d)" by (simp add: d2_def d1_def)
      have same2: "\<And>j. k + 1 \<le> j \<Longrightarrow> chipsData d2 ! j = chipsData d ! j"
        by (simp add: d2_def d1_def)
      show ?thesis
      proof (intro conjI allI impI)
        show "length (mRUDecodeVec rd') = length ?vec" by (rule IH(1))
      next
        fix q show "nChipsFired (?vec ! q) \<le> nChipsFired (mRUDecodeVec rd' ! q)"
          using IH(2) [of q] rlen nf2 by (cases "q = r") (simp_all add: d_def k_def)
      next
        fix q show "length (chipsData (mRUDecodeVec rd' ! q)) = length (chipsData (?vec ! q))"
          using IH(3) [of q] rlen len2 by (cases "q = r") (simp_all add: d_def)
      next
        fix q j assume j: "nChipsFired (mRUDecodeVec rd' ! q) \<le> j"
        show "chipsData (mRUDecodeVec rd' ! q) ! j = chipsData (?vec ! q) ! j"
        proof (cases "q = r")
          case True
          with IH(2) [of r] rlen nf2 j have "k + 1 \<le> j" by simp
          with IH(4) [OF j] True rlen same2 show ?thesis by (simp add: d_def)
        next
          case False with IH(4) [OF j] show ?thesis by simp
        qed
      qed
    qed
  next
    case False
    with Cons.prems(1) obtain r k where cur: "cur = Some (r, k)"
      by (cases cur) (auto simp: Let_def bindF_def)
    from Cons.prems(2) cur have k: "k < nChipsFired (?vec ! r)" by simp
    define d where "d = ?vec ! r"
    define d2 where "d2 = d\<lparr>chipsData := (chipsData d)
           [k := (chipsData d ! k)\<lparr>pixels := pixels (chipsData d ! k) @ [(row dig, col dig)]\<rparr>]\<rparr>"
    define rd2 where "rd2 = rd\<lparr>mRUDecodeVec := ?vec[r := d2]\<rparr>"
    from Cons.prems(1) False cur
    have rec: "placeDigits M lo hi rest (rd2, cid, cur) = Inr (rd', cid', cur')"
      by (simp add: Let_def bindF_def rd2_def d2_def d_def)
    have v2: "mRUDecodeVec rd2 = ?vec[r := d2]" by (simp add: rd2_def)
    have nf2: "nChipsFired d2 = nChipsFired d" by (simp add: d2_def)
    have nfall: "\<And>q. nChipsFired (?vec[r := d2] ! q) = nChipsFired (?vec ! q)"
      using nf2 by (metis d_def list_update_beyond linorder_not_less nth_list_update_eq nth_list_update_neq)
    have inv2: "\<forall>r' k'. cur = Some (r', k') \<longrightarrow> k' < nChipsFired (mRUDecodeVec rd2 ! r')"
      using Cons.prems(2) by (simp add: v2 nfall)
    from Cons.IH [OF rec inv2] have IH:
      "length (mRUDecodeVec rd') = length ?vec"
      "\<And>q. nChipsFired (?vec ! q) \<le> nChipsFired (mRUDecodeVec rd' ! q)"
      "\<And>q. length (chipsData (mRUDecodeVec rd' ! q)) = length (chipsData (?vec[r := d2] ! q))"
      "\<And>q j. nChipsFired (mRUDecodeVec rd' ! q) \<le> j \<Longrightarrow>
           chipsData (mRUDecodeVec rd' ! q) ! j = chipsData (?vec[r := d2] ! q) ! j"
      by (simp_all add: v2 nfall)
    have len2: "length (chipsData d2) = length (chipsData d)" by (simp add: d2_def)
    have lenall: "\<And>q. length (chipsData (?vec[r := d2] ! q)) = length (chipsData (?vec ! q))"
      using len2 by (metis d_def list_update_beyond linorder_not_less nth_list_update_eq nth_list_update_neq)
    have same2: "\<And>j. j \<noteq> k \<Longrightarrow> chipsData d2 ! j = chipsData d ! j" by (simp add: d2_def)
    show ?thesis
    proof (intro conjI allI impI)
      show "length (mRUDecodeVec rd') = length ?vec" by (rule IH(1))
    next
      fix q show "nChipsFired (?vec ! q) \<le> nChipsFired (mRUDecodeVec rd' ! q)" by (rule IH(2))
    next
      fix q show "length (chipsData (mRUDecodeVec rd' ! q)) = length (chipsData (?vec ! q))"
        using IH(3) [of q] lenall by simp
    next
      fix q j assume j: "nChipsFired (mRUDecodeVec rd' ! q) \<le> j"
      show "chipsData (mRUDecodeVec rd' ! q) ! j = chipsData (?vec ! q) ! j"
      proof (cases "q = r \<and> r < length ?vec")
        case True
        with IH(2) [of r] k j have "j \<noteq> k" by simp
        with IH(4) [OF j] True same2 show ?thesis by (simp add: d_def)
      next
        case False
        then have "?vec[r := d2] ! q = ?vec ! q"
          by (metis list_update_beyond linorder_not_less nth_list_update_neq)
        with IH(4) [OF j] show ?thesis by simp
      qed
    qed
  qed
qed


lemma convertFiredChips_chips:
  "convertFiredChips M C ir info ichs n2p d = Inr (d', n2p') \<Longrightarrow> distinct ichs \<Longrightarrow>
   length (chipsData d') = length (chipsData d) \<and>
   (\<forall>k\<in>set ichs. pixels (chipsData d' ! k) = []) \<and>
   (\<forall>k. k \<notin> set ichs \<longrightarrow> chipsData d' ! k = chipsData d ! k)"
proof (induction ichs arbitrary: d n2p)
  case Nil then show ?case by simp
next
  case (Cons ich rest)
  define chipData where "chipData = chipsData d ! ich"
  from Cons.prems(1) have ich: "ich < length (chipsData d)" by (auto split: if_splits)
  from Cons.prems(1) obtain d1 d2 where
    c1: "convertEmptyChips M C ir info [n2p..<chipID chipData] d = Inr d1"
    and c2: "convertChip M C ir info chipData d1 = Inr d2"
    and rec: "convertFiredChips M C ir info rest (chipID chipData + 1)
                (d2\<lparr>chipsData := (chipsData d2)[ich := clearChip chipData]\<rparr>) = Inr (d', n2p')"
    by (auto simp: Let_def chipData_def split: if_splits dest!: bindF_Inr)
  from convertEmptyChips_frame [OF c1] convertChip_frame [OF c2]
  have cd: "chipsData d2 = chipsData d" by simp
  from Cons.prems(2) have dist: "distinct rest" "ich \<notin> set rest" by auto
  from Cons.IH [OF rec dist(1)] have IH:
    "length (chipsData d') = length (chipsData d)"
    "\<forall>k\<in>set rest. pixels (chipsData d' ! k) = []"
    "\<forall>k. k \<notin> set rest \<longrightarrow> chipsData d' ! k = (chipsData d)[ich := clearChip chipData] ! k"
    by (simp_all add: cd)
  from IH(3) dist(2) ich have "chipsData d' ! ich = clearChip chipData" by simp
  then have "pixels (chipsData d' ! ich) = []" by (simp add: clearChip_def)
  with IH show ?case by auto
qed

lemma fillLinksFrom_chips:
  "fillLinksFrom M W ws imp rdh info il ls ruData mp = Inr (ruData', mp') \<Longrightarrow>
   chipsData ruData' = chipsData ruData \<and> cableHWID ruData' = cableHWID ruData \<and>
   nChipsFired ruData' = nChipsFired ruData"
proof (induction M W ws imp rdh info il ls ruData mp rule: fillLinksFrom.induct)
  case (1 M W ws imp rdh info il ruData mp)
  then show ?case by simp
next
  case (2 M W ws imp rdh info il rest ruData mp)
  then show ?case by simp
next
  case (3 M W ws imp rdh info il link rest ruData mp)
  from "3.prems" obtain st where
    lc: "linkChunks M W ws imp rdh info (cableHWID ruData) (cableData ruData) il
              (lanes link) (nTriggers link) = Inr st"
    and rec: "(let link' = link\<lparr>data := addFast (concat (map (chunkBytes W ws) (fchunks st))) (data link),
                          nTriggers := fnTriggers st\<rparr>;
              ruData1 = ruData\<lparr>cableData := fcables st, links := (links ruData)[il := Some link']\<rparr>
          in fillLinksFrom M W ws imp rdh info (Suc il) rest ruData1
               (if mp > nTriggers link' then nTriggers link' else mp)) = Inr (ruData', mp')"
    by (auto dest!: bindF_Inr)
  define link' where "link' = link\<lparr>data := addFast (concat (map (chunkBytes W ws) (fchunks st))) (data link),
                          nTriggers := fnTriggers st\<rparr>"
  define ruData1 where "ruData1 = ruData\<lparr>cableData := fcables st, links := (links ruData)[il := Some link']\<rparr>"
  from rec have rec': "fillLinksFrom M W ws imp rdh info (Suc il) rest ruData1
               (if mp > nTriggers link' then nTriggers link' else mp) = Inr (ruData', mp')"
    by (auto simp add: Let_def link'_def ruData1_def split: if_splits)
  from "3.IH" [OF link'_def ruData1_def rec']
  show ?case by (simp add: ruData1_def)
qed

lemma fillRULinks_chips:
  assumes "fillRULinks M W ws imp ir ruData = Inr (d, mp)"
  shows "chipsData d = chipsData ruData \<and> cableHWID d = cableHWID ruData"
proof -
  from assms obtain info where info: "ruInfo ruData = Some info"
    by (auto simp: fillRULinks_def split: option.splits)
  from assms info obtain d1 mp1 where
    fl: "fillLinksFrom M W ws imp (triggerRDH M W ir) info 0 (links ruData)
           (ruData\<lparr>nCables := nCablesRU info\<rparr>) dummyNPages = Inr (d1, mp1)"
    and d: "d = (clearTrigger d1)\<lparr>nChipsFired := 0\<rparr>"
    by (auto simp: fillRULinks_def split: if_splits dest!: bindF_Inr)
  from fillLinksFrom_chips [OF fl] show ?thesis by (simp add: d clearTrigger_def)
qed

text \<open>
  After the conversion of the readout units \<open>rs\<close>, the chip buffers that were fired are
  cleared and the other ones are as before.
\<close>

lemma convertRUs_chips:
  "convertRUs M C W rs rd mp = Inr (rd', mp') \<Longrightarrow> distinct rs \<Longrightarrow>
   (\<forall>r\<in>set rs.
      length (chipsData (mRUDecodeVec rd' ! r)) = length (chipsData (mRUDecodeVec rd ! r)) \<and>
      (\<forall>k<nChipsFired (mRUDecodeVec rd ! r). pixels (chipsData (mRUDecodeVec rd' ! r) ! k) = []) \<and>
      (\<forall>k. nChipsFired (mRUDecodeVec rd ! r) \<le> k \<longrightarrow>
           chipsData (mRUDecodeVec rd' ! r) ! k = chipsData (mRUDecodeVec rd ! r) ! k))"
proof (induction rs arbitrary: rd mp)
  case Nil then show ?case by simp
next
  case (Cons r rest)
  define d where "d = mRUDecodeVec rd ! r"
  from Cons.prems(1) have r: "r < length (mRUDecodeVec rd)" by (auto split: if_splits)
  from Cons.prems(1) r obtain info where info: "ruInfo d = Some info"
    by (auto simp: Let_def d_def split: option.splits)
  from Cons.prems(1) r info obtain d1 n2p d2 d3 mpr where
    c1: "convertFiredChips M C (mInteractionRecord rd) info [0..<nChipsFired d] 0 d = Inr (d1, n2p)"
    and c2: "convertEmptyChips M C (mInteractionRecord rd) info
                [n2p..<getNChipsOnRUType M (ruType info)] d1 = Inr d2"
    and c3: "fillRULinks M W (mGBTWordSize rd) (mImposeMaxPage rd) (mInteractionRecord rd) d2 = Inr (d3, mpr)"
    and rec: "convertRUs M C W rest
                (rd\<lparr>mCurRUDecodeID := int r + 1, mRUDecodeVec := (mRUDecodeVec rd)[r := d3]\<rparr>)
                (if mpr < mp then mpr else mp) = Inr (rd', mp')"
    by (auto simp: Let_def d_def dest!: bindF_Inr)
  from Cons.prems(2) have dist: "distinct rest" "r \<notin> set rest" by auto
  from convertRUs_post [OF rec dist(1)] dist(2) r
  have d3: "mRUDecodeVec rd' ! r = d3" by simp
  from convertFiredChips_chips [OF c1] convertEmptyChips_frame [OF c2] fillRULinks_chips [OF c3]
  have chips: "length (chipsData d3) = length (chipsData d)"
    "\<forall>k<nChipsFired d. pixels (chipsData d3 ! k) = []"
    "\<forall>k. nChipsFired d \<le> k \<longrightarrow> chipsData d3 ! k = chipsData d ! k"
    by auto
  have other: "\<And>q. q \<in> set rest \<Longrightarrow> (mRUDecodeVec rd)[r := d3] ! q = mRUDecodeVec rd ! q"
    using dist(2) by (metis nth_list_update_neq)
  from Cons.IH [OF rec dist(1)]
  have IH: "\<forall>q\<in>set rest.
      length (chipsData (mRUDecodeVec rd' ! q)) = length (chipsData (mRUDecodeVec rd ! q)) \<and>
      (\<forall>k<nChipsFired (mRUDecodeVec rd ! q). pixels (chipsData (mRUDecodeVec rd' ! q) ! k) = []) \<and>
      (\<forall>k. nChipsFired (mRUDecodeVec rd ! q) \<le> k \<longrightarrow>
           chipsData (mRUDecodeVec rd' ! q) ! k = chipsData (mRUDecodeVec rd ! q) ! k)"
    by (simp add: other)
  from chips d3 IH show ?case by (simp add: d_def)
qed


text \<open>
  Claim C10. When \<^verbatim>\<open>digits2raw\<close> returns, every readout unit \<open>r\<close> it processed (from
  \<open>ruSWMin\<close> to the clipped \<open>ruSWMax\<close>) has its per-trigger state empty: \<open>nCables\<close> and
  \<open>nChipsFired\<close> are zero and the buffers of the cables of the unit are cleared; all the
  cable buffers of the container are cleared when the mapping places the chips of the
  unit on its cables and the remaining buffers were empty before the call. The chip
  buffers the call has filled (the first \<open>n\<close> of the container, \<open>n\<close> being the number of
  fired chips when the digits are placed) hold no pixel any more, and the other chip
  buffers are as before the call: no digit of this trigger is left for the next one.
\<close>

theorem digits2raw_clears_trigger_state:
  assumes d2r: "digits2raw M C W digiVec from ndig bcData ruSWMin ruSWMax rd = Inr (rd', minPages)"
    and lo: "unat ruSWMin \<le> r"
    and hi: "r \<le> unat (if ruSWMax < of_nat (getNRUs M) then ruSWMax else of_nat (getNRUs M) - 1)"
  shows "\<exists>info n. ruInfo (mRUDecodeVec rd' ! r) = Some info \<and>
     nCables (mRUDecodeVec rd' ! r) = 0 \<and> nChipsFired (mRUDecodeVec rd' ! r) = 0 \<and>
     length (cableData (mRUDecodeVec rd' ! r)) = length (cableData (mRUDecodeVec rd ! r)) \<and>
     (\<forall>i<nCablesRU info. cableData (mRUDecodeVec rd' ! r) ! i = emptyCont) \<and>
     ((\<forall>k. cableSW (getChipOnRUInfo M (ruType info) k) < nCablesRU info) \<and>
      (\<forall>i. nCablesRU info \<le> i \<and> i < length (cableData (mRUDecodeVec rd ! r)) \<longrightarrow>
           cableData (mRUDecodeVec rd ! r) ! i = emptyCont)
      \<longrightarrow> (\<forall>i<length (cableData (mRUDecodeVec rd' ! r)).
             cableData (mRUDecodeVec rd' ! r) ! i = emptyCont)) \<and>
     length (chipsData (mRUDecodeVec rd' ! r)) = length (chipsData (mRUDecodeVec rd ! r)) \<and>
     nChipsFired (mRUDecodeVec rd ! r) \<le> n \<and>
     (\<forall>k<n. pixels (chipsData (mRUDecodeVec rd' ! r) ! k) = []) \<and>
     (\<forall>k. n \<le> k \<longrightarrow> chipsData (mRUDecodeVec rd' ! r) ! k = chipsData (mRUDecodeVec rd ! r) ! k)"
proof -
  define ruSWMax' where
    "ruSWMax' = (if ruSWMax < of_nat (getNRUs M) then ruSWMax else of_nat (getNRUs M) - 1)"
  define rus where "rus = [unat ruSWMin..<Suc (unat ruSWMax')]"
  define rd1 where "rd1 = rd\<lparr>mInteractionRecord := bcData\<rparr>"
  from d2r obtain rd2 rd3 cid cur where
    book: "(if int (mNRUs rd1) < int (unat ruSWMax') - int (unat ruSWMin)
            then bookLoop M ruSWMin ruSWMax' rd1 else Inr rd1) = Inr rd2"
    and place: "placeDigits M (unat ruSWMin) (unat ruSWMax')
        (take ((if from + ndig \<le> length digiVec then from + ndig else length digiVec) - from)
           (drop from digiVec)) (rd2, 0xFFFF, None) = Inr (rd3, cid, cur)"
    and conv: "convertRUs M C W rus (rd3\<lparr>mCurRUDecodeID := int (unat ruSWMin)\<rparr>) 0xFFFFFF
        = Inr (rd', minPages)"
    unfolding digits2raw_def Let_def ruSWMax'_def [symmetric] rus_def [symmetric] rd1_def [symmetric]
    by (auto split: if_splits dest!: bindF_Inr)
  have bk: "rd2 = rd1 \<or> bookContainers M rus rd1 = Inr rd2"
  proof (cases "int (mNRUs rd1) < int (unat ruSWMax') - int (unat ruSWMin)")
    case True
    with book have "bookLoop M ruSWMin ruSWMax' rd1 = Inr rd2" by simp
    from bookLoop_Inr [OF this] show ?thesis by (simp add: rus_def)
  next
    case False with book show ?thesis by simp
  qed
  have c2: "map cableData (mRUDecodeVec rd2) = map cableData (mRUDecodeVec rd)"
    using bk bookContainers_cables [of M rus rd1 rd2] by (auto simp: rd1_def)
  have c3: "map cableData (mRUDecodeVec rd3) = map cableData (mRUDecodeVec rd)"
    using placeDigits_cables [OF place] c2 by simp
  have h2: "map (\<lambda>d. (chipsData d, nChipsFired d)) (mRUDecodeVec rd2) =
            map (\<lambda>d. (chipsData d, nChipsFired d)) (mRUDecodeVec rd)"
    using bk bookContainers_chips [of M rus rd1 rd2] by (auto simp: rd1_def)
  have mem: "r \<in> set rus" using lo hi unfolding rus_def ruSWMax'_def [symmetric] by auto
  have dist: "distinct rus" by (simp add: rus_def)
  from convertRUs_post [OF conv dist] mem
  have r: "r < length (mRUDecodeVec rd3)"
    and tc: "triggerCleared M (mRUDecodeVec rd3 ! r) (mRUDecodeVec rd' ! r)"
    by auto
  from c3 r have cab: "cableData (mRUDecodeVec rd3 ! r) = cableData (mRUDecodeVec rd ! r)"
    by (metis length_map nth_map)
  from placeDigits_chips [OF place] have pl:
    "length (mRUDecodeVec rd3) = length (mRUDecodeVec rd2)"
    "nChipsFired (mRUDecodeVec rd2 ! r) \<le> nChipsFired (mRUDecodeVec rd3 ! r)"
    "length (chipsData (mRUDecodeVec rd3 ! r)) = length (chipsData (mRUDecodeVec rd2 ! r))"
    "\<forall>k. nChipsFired (mRUDecodeVec rd3 ! r) \<le> k \<longrightarrow>
         chipsData (mRUDecodeVec rd3 ! r) ! k = chipsData (mRUDecodeVec rd2 ! r) ! k"
    by simp_all
  from h2 have len2: "length (mRUDecodeVec rd2) = length (mRUDecodeVec rd)"
    by (metis length_map)
  from h2 have "map (\<lambda>d. (chipsData d, nChipsFired d)) (mRUDecodeVec rd2) ! r =
      map (\<lambda>d. (chipsData d, nChipsFired d)) (mRUDecodeVec rd) ! r" by simp
  with r pl(1) len2 have same2: "chipsData (mRUDecodeVec rd2 ! r) = chipsData (mRUDecodeVec rd ! r)"
    "nChipsFired (mRUDecodeVec rd2 ! r) = nChipsFired (mRUDecodeVec rd ! r)"
    by simp_all
  define n where "n = nChipsFired (mRUDecodeVec rd3 ! r)"
  from convertRUs_chips [OF conv dist] mem have cv:
    "length (chipsData (mRUDecodeVec rd' ! r)) = length (chipsData (mRUDecodeVec rd3 ! r))"
    "\<forall>k<n. pixels (chipsData (mRUDecodeVec rd' ! r) ! k) = []"
    "\<forall>k. n \<le> k \<longrightarrow> chipsData (mRUDecodeVec rd' ! r) ! k = chipsData (mRUDecodeVec rd3 ! r) ! k"
    by (simp_all add: n_def)
  from tc obtain info where tcs: "ruInfo (mRUDecodeVec rd' ! r) = Some info"
    "nCables (mRUDecodeVec rd' ! r) = 0" "nChipsFired (mRUDecodeVec rd' ! r) = 0"
    "length (cableData (mRUDecodeVec rd' ! r)) = length (cableData (mRUDecodeVec rd3 ! r))"
    "\<forall>i<nCablesRU info. cableData (mRUDecodeVec rd' ! r) ! i = emptyCont"
    "(\<forall>k. cableSW (getChipOnRUInfo M (ruType info) k) < nCablesRU info) \<and>
      (\<forall>i. nCablesRU info \<le> i \<and> i < length (cableData (mRUDecodeVec rd3 ! r)) \<longrightarrow>
           cableData (mRUDecodeVec rd3 ! r) ! i = emptyCont)
      \<longrightarrow> (\<forall>i<length (cableData (mRUDecodeVec rd' ! r)).
             cableData (mRUDecodeVec rd' ! r) ! i = emptyCont)"
    unfolding triggerCleared_def by (elim exE conjE) (rule that, assumption+)
  have chips: "length (chipsData (mRUDecodeVec rd' ! r)) = length (chipsData (mRUDecodeVec rd ! r))"
    "nChipsFired (mRUDecodeVec rd ! r) \<le> n"
    "\<forall>k. n \<le> k \<longrightarrow> chipsData (mRUDecodeVec rd' ! r) ! k = chipsData (mRUDecodeVec rd ! r) ! k"
    using cv pl same2 by (simp_all add: n_def)
  show ?thesis
    apply (rule exI [of _ info], rule exI [of _ n])
    using tcs cab chips cv(2) by simp
qed

lemma chipRuns_skip: "chipRuns c xs \<le> Suc (chipRuns x xs)"
  by (cases xs) auto

lemma keepsShape_refl: "keepsShape d d"
  by (simp add: keepsShape_def)

lemma keepsShape_trans: "keepsShape d d1 \<Longrightarrow> keepsShape d1 d2 \<Longrightarrow> keepsShape d d2"
  by (simp add: keepsShape_def)

lemma ptr_update:
  "\<forall>c\<in>set cs. ptr c = 0 \<Longrightarrow> ptr y = 0 \<Longrightarrow> \<forall>c\<in>set (cs[i := y]). ptr c = 0"
  by (metis insert_iff set_update_subset_insert subsetD)

lemma keepsShape_cable:
  assumes "i < length (cableData d)"
  shows "keepsShape d (d\<lparr>cableHWID := (cableHWID d)[i := hw],
            cableData := (cableData d)[i := addFast bs (cableData d ! i)]\<rparr>)"
proof -
  have "(\<forall>c\<in>set (cableData d). ptr c = 0) \<longrightarrow>
        (\<forall>c\<in>set ((cableData d)[i := addFast bs (cableData d ! i)]). ptr c = 0)"
  proof
    assume a: "\<forall>c\<in>set (cableData d). ptr c = 0"
    with assms have "ptr (addFast bs (cableData d ! i)) = 0" by (simp add: addFast_def)
    with a show "\<forall>c\<in>set ((cableData d)[i := addFast bs (cableData d ! i)]). ptr c = 0"
      by (rule ptr_update)
  qed
  then show ?thesis by (simp add: keepsShape_def)
qed

lemma convertEmptyChips_returns:
  assumes cab: "\<forall>t k. cableSW (getChipOnRUInfo M t k) < nat MaxCablesPerRU"
  shows "length (cableData d) = nat MaxCablesPerRU \<Longrightarrow> length (cableHWID d) = nat MaxCablesPerRU \<Longrightarrow>
     \<exists>d'. convertEmptyChips M C ir info ks d = Inr d' \<and> keepsShape d d' \<and>
          chipsData d' = chipsData d"
proof (induction ks arbitrary: d)
  case Nil then show ?case by (simp add: keepsShape_refl)
next
  case (Cons k ks)
  define chip where "chip = getChipOnRUInfo M (ruType info) k"
  define d1 where "d1 = d\<lparr>cableHWID := (cableHWID d)[cableSW chip := cableHW chip],
      cableData := (cableData d)[cableSW chip :=
         addFast (addEmptyChip C (chipOnModuleHW chip) (bc ir)) (cableData d ! cableSW chip)]\<rparr>"
  from cab have rng: "cableSW chip < nat MaxCablesPerRU" by (simp add: chip_def)
  with Cons.prems have ks1: "keepsShape d d1"
    unfolding d1_def by (intro keepsShape_cable) simp
  have len1: "length (cableData d1) = nat MaxCablesPerRU" "length (cableHWID d1) = nat MaxCablesPerRU"
    using Cons.prems by (simp_all add: d1_def)
  from Cons.IH [OF len1] obtain d' where
    r: "convertEmptyChips M C ir info ks d1 = Inr d'" "keepsShape d1 d'" "chipsData d' = chipsData d1"
    by blast
  have "convertEmptyChips M C ir info (k # ks) d = convertEmptyChips M C ir info ks d1"
    using rng Cons.prems by (simp add: Let_def chip_def [symmetric] d1_def)
  with r keepsShape_trans [OF ks1 r(2)] show ?case by (simp add: d1_def)
qed

lemma convertChip_returns:
  assumes cab: "\<forall>t k. cableSW (getChipOnRUInfo M t k) < nat MaxCablesPerRU"
    and "length (cableData d) = nat MaxCablesPerRU" "length (cableHWID d) = nat MaxCablesPerRU"
  shows "\<exists>d'. convertChip M C ir info chipData d = Inr d' \<and> keepsShape d d' \<and>
          chipsData d' = chipsData d"
proof -
  define chip where "chip = getChipOnRUInfo M (ruType info) (chipID chipData)"
  from cab have rng: "cableSW chip < nat MaxCablesPerRU" by (simp add: chip_def)
  define d1 where "d1 = d\<lparr>cableHWID := (cableHWID d)[cableSW chip := cableHW chip],
      cableData := (cableData d)[cableSW chip :=
         addFast (encodeChip C (chipData\<lparr>pixels := sortPixels (pixels chipData)\<rparr>)
                                (chipOnModuleHW chip) (bc ir)) (cableData d ! cableSW chip)]\<rparr>"
  from rng assms(2) have "keepsShape d d1"
    unfolding d1_def by (intro keepsShape_cable) simp
  moreover have "convertChip M C ir info chipData d = Inr d1"
    using rng assms(2,3) by (simp add: convertChip_def Let_def chip_def [symmetric] d1_def)
  ultimately show ?thesis by (simp add: d1_def)
qed

lemma convertFiredChips_returns:
  assumes cab: "\<forall>t k. cableSW (getChipOnRUInfo M t k) < nat MaxCablesPerRU"
  shows "length (cableData d) = nat MaxCablesPerRU \<Longrightarrow> length (cableHWID d) = nat MaxCablesPerRU \<Longrightarrow>
     \<forall>ich\<in>set ichs. ich < length (chipsData d) \<Longrightarrow>
     \<exists>d' n. convertFiredChips M C ir info ichs n2p d = Inr (d', n) \<and> keepsShape d d'"
proof (induction ichs arbitrary: d n2p)
  case Nil then show ?case by (simp add: keepsShape_refl)
next
  case (Cons ich rest)
  define chipData where "chipData = chipsData d ! ich"
  from Cons.prems(3) have ich: "ich < length (chipsData d)" by simp
  from convertEmptyChips_returns [OF cab Cons.prems(1,2), of C ir info "[n2p..<chipID chipData]"]
  obtain d1 where c1: "convertEmptyChips M C ir info [n2p..<chipID chipData] d = Inr d1"
    "keepsShape d d1" "chipsData d1 = chipsData d" by blast
  from c1(2) Cons.prems(1,2) have len1: "length (cableData d1) = nat MaxCablesPerRU"
    "length (cableHWID d1) = nat MaxCablesPerRU" by (simp_all add: keepsShape_def)
  from convertChip_returns [OF cab len1, of C ir info chipData]
  obtain d2 where c2: "convertChip M C ir info chipData d1 = Inr d2"
    "keepsShape d1 d2" "chipsData d2 = chipsData d1" by blast
  define d3 where "d3 = d2\<lparr>chipsData := (chipsData d2)[ich := clearChip chipData]\<rparr>"
  have ks3: "keepsShape d d3"
    using keepsShape_trans [OF c1(2) c2(2)] by (simp add: keepsShape_def d3_def)
  then have len3: "length (cableData d3) = nat MaxCablesPerRU"
    "length (cableHWID d3) = nat MaxCablesPerRU"
    using Cons.prems(1,2) by (simp_all add: keepsShape_def)
  have bnd: "\<forall>k\<in>set rest. k < length (chipsData d3)"
    using Cons.prems(3) ks3 by (simp add: keepsShape_def)
  from Cons.IH [OF len3 bnd, of "chipID chipData + 1"] obtain d' n where
    r: "convertFiredChips M C ir info rest (chipID chipData + 1) d3 = Inr (d', n)" "keepsShape d3 d'"
    by blast
  have "convertFiredChips M C ir info (ich # rest) n2p d = Inr (d', n)"
    using ich c1(1) c2(1) r(1)
    by (simp add: Let_def chipData_def [symmetric] bindF_def d3_def)
  with keepsShape_trans [OF ks3 r(2)] show ?case by blast
qed

lemma fillLinksFrom_Nones:
  "\<forall>l\<in>set ls. l = None \<Longrightarrow>
   fillLinksFrom M W ws imp rdh info il ls ruData mp = Inr (ruData, mp)"
  by (induction ls arbitrary: il) auto


lemma fillLinks_single:
  assumes info: "ruInfo d = Some info" "nCablesRU info \<le> length (cableData d)"
    and ptr0: "\<forall>c\<in>set (cableData d). ptr c = 0"
    and single: "\<forall>il. 0 < il \<and> il < length (links d) \<longrightarrow> links d ! il = None"
  shows "\<exists>d1 mp1. fillLinksFrom M W ws imp (triggerRDH M W ir) info 0 (links d) d mp = Inr (d1, mp1) \<and>
     length (links d1) = length (links d) \<and>
     (\<forall>il. 0 < il \<and> il < length (links d1) \<longrightarrow> links d1 ! il = None)"
proof (cases "links d")
  case Nil
  then show ?thesis by simp
next
  case (Cons l rest)
  have rest: "\<forall>x\<in>set rest. x = None"
  proof
    fix x assume "x \<in> set rest"
    then obtain j where j: "j < length rest" "rest ! j = x" by (auto simp: in_set_conv_nth)
    with single [rule_format, of "Suc j"] Cons show "x = None" by simp
  qed
  show ?thesis
  proof (cases l)
    case None
    with Cons rest single show ?thesis by (simp add: fillLinksFrom_Nones)
  next
    case (Some link)
    have fresh: "\<forall>icab<nCablesRU info. servesLane (lanes link) icab \<longrightarrow> ptr (cableData d ! icab) = 0"
      using ptr0 info(2) by simp
    have pos: "0 < maxGBTWordsPerPacket (triggerRDH M W ir)"
      by (simp add: maxGBTWordsPerPacket_triggerRDH)
    from linkChunks_total [OF fresh info(2) pos, of M W ws imp "cableHWID d" 0 "nTriggers link"]
    obtain st where st: "linkChunks M W ws imp (triggerRDH M W ir) info (cableHWID d) (cableData d) 0
        (lanes link) (nTriggers link) = Inr st" by blast
    define link' where "link' = link\<lparr>data := addFast (concat (map (chunkBytes W ws) (fchunks st))) (data link),
                          nTriggers := fnTriggers st\<rparr>"
    define d1 where "d1 = d\<lparr>cableData := fcables st, links := Some link' # rest\<rparr>"
    have "\<exists>mp1. fillLinksFrom M W ws imp (triggerRDH M W ir) info 0 (links d) d mp = Inr (d1, mp1)"
      using Cons Some st rest
      by (simp add: bindF_def Let_def link'_def d1_def fillLinksFrom_Nones)
    moreover have "length (links d1) = length (links d)" using Cons by (simp add: d1_def)
    moreover have "\<forall>il. 0 < il \<and> il < length (links d1) \<longrightarrow> links d1 ! il = None"
      using single Cons by (auto simp: d1_def nth_Cons')
    ultimately show ?thesis by blast
  qed
qed

lemma fillRULinks_returns:
  assumes enc: "encodable d"
  shows "\<exists>d' mp. fillRULinks M W ws imp ir d = Inr (d', mp) \<and> encodable d' \<and> nChipsFired d' = 0"
proof -
  from enc obtain info where info: "ruInfo d = Some info" "nCablesRU info \<le> nat MaxCablesPerRU"
    and len: "length (cableData d) = nat MaxCablesPerRU" "length (cableHWID d) = nat MaxCablesPerRU"
      "length (chipsData d) = nat MaxChipsPerRU"
    and ptr0: "\<forall>c\<in>set (cableData d). ptr c = 0"
    and single: "\<forall>il. 0 < il \<and> il < length (links d) \<longrightarrow> links d ! il = None"
    unfolding encodable_def by blast
  define d0 where "d0 = d\<lparr>nCables := nCablesRU info\<rparr>"
  have i0: "ruInfo d0 = Some info" "nCablesRU info \<le> length (cableData d0)"
    using info len by (simp_all add: d0_def)
  have p0: "\<forall>c\<in>set (cableData d0). ptr c = 0" using ptr0 by (simp add: d0_def)
  have s0: "\<forall>il. 0 < il \<and> il < length (links d0) \<longrightarrow> links d0 ! il = None"
    using single by (simp add: d0_def)
  from fillLinks_single [OF i0 p0 s0, of M W ws imp ir dummyNPages]
  obtain d1 mp1 where fl: "fillLinksFrom M W ws imp (triggerRDH M W ir) info 0 (links d) d0 dummyNPages
        = Inr (d1, mp1)"
    and l1: "length (links d1) = length (links d)"
      "\<forall>il. 0 < il \<and> il < length (links d1) \<longrightarrow> links d1 ! il = None"
    by (auto simp: d0_def)
  from fillLinksFrom_frame [OF fl] fillLinksFrom_chips [OF fl]
  have fr: "nCables d1 = nCablesRU info" "ruInfo d1 = Some info"
    "length (cableData d1) = nat MaxCablesPerRU"
    "\<forall>i. nCablesRU info \<le> i \<longrightarrow> cableData d1 ! i = cableData d ! i"
    "chipsData d1 = chipsData d" "cableHWID d1 = cableHWID d"
    using info len by (simp_all add: d0_def)
  define d' where "d' = (clearTrigger d1)\<lparr>nChipsFired := 0\<rparr>"
  have run: "fillRULinks M W ws imp ir d =
      Inr (d', if mp1 = dummyNPages then 0 else mp1)"
    using info len fl by (simp add: fillRULinks_def bindF_def d0_def d'_def)
  have cd: "\<And>i. cableData d' ! i =
      (if i < nCablesRU info then emptyCont else cableData d1 ! i)"
    using fold_clear [of "rev [0..<nCables d1]" "cableData d1"] fr(1,3) info(2)
    by (auto simp: d'_def clearTrigger_def)
  have lend: "length (cableData d') = nat MaxCablesPerRU"
    using fold_clear [of "rev [0..<nCables d1]" "cableData d1"] fr(3)
    by (simp add: d'_def clearTrigger_def)
  have ptr': "\<forall>c\<in>set (cableData d'). ptr c = 0"
  proof
    fix c assume "c \<in> set (cableData d')"
    then obtain i where i: "i < length (cableData d')" "cableData d' ! i = c"
      by (auto simp: in_set_conv_nth)
    show "ptr c = 0"
    proof (cases "i < nCablesRU info")
      case True with cd [of i] i show ?thesis by (simp add: emptyCont_def)
    next
      case False
      with cd [of i] i fr(4) have "c = cableData d ! i" by simp
      moreover from i lend len have "i < length (cableData d)" by simp
      ultimately show ?thesis using ptr0 by simp
    qed
  qed
  have "encodable d'"
    unfolding encodable_def
    using fr info len l1 ptr' lend by (simp add: d'_def clearTrigger_def)
  with run show ?thesis by (auto simp: d'_def)
qed

lemma encodable_keepsShape: "encodable d \<Longrightarrow> keepsShape d d' \<Longrightarrow> encodable d'"
  by (simp add: encodable_def keepsShape_def)

lemma convertRUs_returns:
  assumes cab: "\<forall>t k. cableSW (getChipOnRUInfo M t k) < nat MaxCablesPerRU"
  shows "\<forall>r\<in>set rs. r < length (mRUDecodeVec rd) \<and> encodable (mRUDecodeVec rd ! r) \<Longrightarrow>
     distinct rs \<Longrightarrow>
     \<exists>rd' mp'. convertRUs M C W rs rd mp = Inr (rd', mp') \<and>
        length (mRUDecodeVec rd') = length (mRUDecodeVec rd) \<and> mNRUs rd' = mNRUs rd \<and>
        (\<forall>r\<in>set rs. encodable (mRUDecodeVec rd' ! r) \<and> nChipsFired (mRUDecodeVec rd' ! r) = 0) \<and>
        (\<forall>r. r \<notin> set rs \<longrightarrow> mRUDecodeVec rd' ! r = mRUDecodeVec rd ! r)"
proof (induction rs arbitrary: rd mp)
  case Nil then show ?case by simp
next
  case (Cons r rest)
  define d where "d = mRUDecodeVec rd ! r"
  define ir where "ir = mInteractionRecord rd"
  from Cons.prems(1) have r: "r < length (mRUDecodeVec rd)" and enc: "encodable d"
    by (simp_all add: d_def)
  from enc obtain info where info: "ruInfo d = Some info"
    and len: "length (cableData d) = nat MaxCablesPerRU" "length (cableHWID d) = nat MaxCablesPerRU"
      "length (chipsData d) = nat MaxChipsPerRU" "nChipsFired d \<le> nat MaxChipsPerRU"
    unfolding encodable_def by blast
  have bnd: "\<forall>ich\<in>set [0..<nChipsFired d]. ich < length (chipsData d)" using len by simp
  from convertFiredChips_returns [OF cab len(1,2) bnd, of C ir info 0]
  obtain d1 n2p where c1: "convertFiredChips M C ir info [0..<nChipsFired d] 0 d = Inr (d1, n2p)"
    and k1: "keepsShape d d1" by blast
  from k1 len have len1: "length (cableData d1) = nat MaxCablesPerRU"
    "length (cableHWID d1) = nat MaxCablesPerRU" by (simp_all add: keepsShape_def)
  from convertEmptyChips_returns [OF cab len1, of C ir info "[n2p..<getNChipsOnRUType M (ruType info)]"]
  obtain d2 where c2: "convertEmptyChips M C ir info [n2p..<getNChipsOnRUType M (ruType info)] d1 = Inr d2"
    and k2: "keepsShape d1 d2" by blast
  from encodable_keepsShape [OF encodable_keepsShape [OF enc k1] k2] have enc2: "encodable d2" .
  from fillRULinks_returns [OF enc2, of M W "mGBTWordSize rd" "mImposeMaxPage rd" ir]
  obtain d3 mpr where c3: "fillRULinks M W (mGBTWordSize rd) (mImposeMaxPage rd) ir d2 = Inr (d3, mpr)"
    and enc3: "encodable d3" "nChipsFired d3 = 0" by blast
  define rd1 where "rd1 = rd\<lparr>mCurRUDecodeID := int r + 1, mRUDecodeVec := (mRUDecodeVec rd)[r := d3]\<rparr>"
  have v1: "mRUDecodeVec rd1 = (mRUDecodeVec rd)[r := d3]" "mNRUs rd1 = mNRUs rd"
    by (simp_all add: rd1_def)
  from Cons.prems(2) have dist: "distinct rest" "r \<notin> set rest" by auto
  have pre: "\<forall>q\<in>set rest. q < length (mRUDecodeVec rd1) \<and> encodable (mRUDecodeVec rd1 ! q)"
  proof
    fix q assume q: "q \<in> set rest"
    with dist(2) have "q \<noteq> r" by auto
    with Cons.prems(1) q show "q < length (mRUDecodeVec rd1) \<and> encodable (mRUDecodeVec rd1 ! q)"
      by (simp add: v1)
  qed
  from Cons.IH [OF pre dist(1), of "if mpr < mp then mpr else mp"]
  obtain rd' mp' where rec: "convertRUs M C W rest rd1 (if mpr < mp then mpr else mp) = Inr (rd', mp')"
    and post: "length (mRUDecodeVec rd') = length (mRUDecodeVec rd1)" "mNRUs rd' = mNRUs rd1"
      "\<forall>q\<in>set rest. encodable (mRUDecodeVec rd' ! q) \<and> nChipsFired (mRUDecodeVec rd' ! q) = 0"
      "\<forall>q. q \<notin> set rest \<longrightarrow> mRUDecodeVec rd' ! q = mRUDecodeVec rd1 ! q"
    by blast
  have run: "convertRUs M C W (r # rest) rd mp = Inr (rd', mp')"
    using r info c1 c2 c3 rec
    by (simp add: Let_def d_def [symmetric] ir_def [symmetric] bindF_def rd1_def [symmetric])
  from post(4) dist(2) r have atr: "mRUDecodeVec rd' ! r = d3" by (simp add: v1)
  have oth: "\<forall>q. q \<notin> set (r # rest) \<longrightarrow> mRUDecodeVec rd' ! q = mRUDecodeVec rd ! q"
    using post(4) by (simp add: v1)
  from run post(1,2,3) atr enc3 oth show ?case
    by (intro exI [of _ rd'] exI [of _ mp']) (simp add: v1)
qed


text \<open>
  The digits are placed when the chip buffers suffice for the chips met along them.
  The containers keep their unit, links and cable buffers.
\<close>

lemma placeDigits_returns:
  "(\<forall>r. lo \<le> r \<and> r \<le> hi \<longrightarrow> r < length (mRUDecodeVec rd) \<and>
        length (chipsData (mRUDecodeVec rd ! r)) = nat MaxChipsPerRU \<and>
        nChipsFired (mRUDecodeVec rd ! r) + chipRuns cid (map chipIndex digs) \<le> nat MaxChipsPerRU) \<Longrightarrow>
   (cur = None \<longrightarrow> (\<forall>dig\<in>set digs. chipIndex dig \<noteq> cid)) \<Longrightarrow>
   \<exists>rd' cid' cur'. placeDigits M lo hi digs (rd, cid, cur) = Inr (rd', cid', cur') \<and>
      mNRUs rd' = mNRUs rd \<and> length (mRUDecodeVec rd') = length (mRUDecodeVec rd) \<and>
      (\<forall>r. ruInfo (mRUDecodeVec rd' ! r) = ruInfo (mRUDecodeVec rd ! r) \<and>
           links (mRUDecodeVec rd' ! r) = links (mRUDecodeVec rd ! r) \<and>
           cableData (mRUDecodeVec rd' ! r) = cableData (mRUDecodeVec rd ! r) \<and>
           cableHWID (mRUDecodeVec rd' ! r) = cableHWID (mRUDecodeVec rd ! r) \<and>
           length (chipsData (mRUDecodeVec rd' ! r)) = length (chipsData (mRUDecodeVec rd ! r)) \<and>
           (lo \<le> r \<and> r \<le> hi \<longrightarrow> nChipsFired (mRUDecodeVec rd' ! r) \<le> nat MaxChipsPerRU))"
proof (induction digs arbitrary: rd cid cur)
  case Nil
  have "\<forall>r. lo \<le> r \<and> r \<le> hi \<longrightarrow> nChipsFired (mRUDecodeVec rd ! r) \<le> nat MaxChipsPerRU"
    using Nil.prems(1) by simp
  then show ?case by simp
next
  case (Cons dig rest)
  let ?vec = "mRUDecodeVec rd"
  let ?c = "chipIndex dig"
  show ?case
  proof (cases "cid \<noteq> ?c")
    case True
    then have runs: "chipRuns cid (map chipIndex (dig # rest)) = Suc (chipRuns ?c (map chipIndex rest))"
      by simp
    define chInfo where "chInfo = getChipInfoSW M ?c"
    show ?thesis
    proof (cases "ru chInfo < lo \<or> ru chInfo > hi")
      case skip: True
      have step: "placeDigits M lo hi (dig # rest) (rd, cid, cur) =
                  placeDigits M lo hi rest (rd, cid, cur)"
        using True skip by (simp add: Let_def chInfo_def)
      have le: "chipRuns cid (map chipIndex rest) \<le> Suc (chipRuns ?c (map chipIndex rest))"
        by (rule chipRuns_skip)
      have p1: "\<forall>r. lo \<le> r \<and> r \<le> hi \<longrightarrow> r < length ?vec \<and>
          length (chipsData (?vec ! r)) = nat MaxChipsPerRU \<and>
          nChipsFired (?vec ! r) + chipRuns cid (map chipIndex rest) \<le> nat MaxChipsPerRU"
        using Cons.prems(1) le unfolding runs by (meson add_le_mono le_refl le_trans)
      have p2: "cur = None \<longrightarrow> (\<forall>dig\<in>set rest. chipIndex dig \<noteq> cid)"
        using Cons.prems(2) by simp
      from Cons.IH [OF p1 p2] step show ?thesis by simp
    next
      case False
      define r where "r = ru chInfo"
      define d where "d = ?vec ! r"
      define k where "k = nChipsFired d"
      from False have inr: "lo \<le> r" "r \<le> hi" by (simp_all add: r_def)
      with Cons.prems(1) have rlen: "r < length ?vec"
        and clen: "length (chipsData d) = nat MaxChipsPerRU"
        and kb: "k + Suc (chipRuns ?c (map chipIndex rest)) \<le> nat MaxChipsPerRU"
        unfolding runs by (simp_all add: d_def k_def)
      from kb clen have klen: "k < length (chipsData d)" by simp
      define d1 where "d1 = d\<lparr>nChipsFired := k + 1,
         chipsData := (chipsData d)[k := (chipsData d ! k)\<lparr>chipID := chipIdOnRU (chOnRU chInfo)\<rparr>]\<rparr>"
      define d2 where "d2 = d1\<lparr>chipsData := (chipsData d1)
           [k := (chipsData d1 ! k)\<lparr>pixels := pixels (chipsData d1 ! k) @ [(row dig, col dig)]\<rparr>]\<rparr>"
      define rd2 where "rd2 = rd\<lparr>mCurRUDecodeID := int r, mRUDecodeVec := ?vec[r := d2]\<rparr>"
      have step: "placeDigits M lo hi (dig # rest) (rd, cid, cur) =
                  placeDigits M lo hi rest (rd2, ?c, Some (r, k))"
        using True False rlen klen
        by (simp add: Let_def chInfo_def [symmetric] r_def [symmetric] d_def [symmetric]
            k_def [symmetric] bindF_def rd2_def d2_def d1_def)
      have v2: "mRUDecodeVec rd2 = ?vec[r := d2]" "mNRUs rd2 = mNRUs rd" by (simp_all add: rd2_def)
      have f2: "ruInfo d2 = ruInfo d" "links d2 = links d" "cableData d2 = cableData d"
        "cableHWID d2 = cableHWID d" "length (chipsData d2) = length (chipsData d)"
        "nChipsFired d2 = k + 1"
        by (simp_all add: d2_def d1_def)
      have at: "\<And>q. ?vec[r := d2] ! q = (if q = r then d2 else ?vec ! q)"
        using rlen by (simp add: nth_list_update)
      have p1: "\<forall>q. lo \<le> q \<and> q \<le> hi \<longrightarrow> q < length (mRUDecodeVec rd2) \<and>
          length (chipsData (mRUDecodeVec rd2 ! q)) = nat MaxChipsPerRU \<and>
          nChipsFired (mRUDecodeVec rd2 ! q) + chipRuns ?c (map chipIndex rest) \<le> nat MaxChipsPerRU"
      proof (intro allI impI)
        fix q assume q: "lo \<le> q \<and> q \<le> hi"
        with Cons.prems(1) have qq: "q < length ?vec"
          "length (chipsData (?vec ! q)) = nat MaxChipsPerRU"
          "nChipsFired (?vec ! q) + Suc (chipRuns ?c (map chipIndex rest)) \<le> nat MaxChipsPerRU"
          unfolding runs by simp_all
        show "q < length (mRUDecodeVec rd2) \<and>
          length (chipsData (mRUDecodeVec rd2 ! q)) = nat MaxChipsPerRU \<and>
          nChipsFired (mRUDecodeVec rd2 ! q) + chipRuns ?c (map chipIndex rest) \<le> nat MaxChipsPerRU"
          using qq kb clen f2 by (simp add: v2 at)
      qed
      have p2: "Some (r, k) = None \<longrightarrow> (\<forall>dig\<in>set rest. chipIndex dig \<noteq> ?c)" by simp
      from Cons.IH [OF p1 p2] obtain rd' cid' cur' where
        rec: "placeDigits M lo hi rest (rd2, ?c, Some (r, k)) = Inr (rd', cid', cur')"
        and post: "mNRUs rd' = mNRUs rd2" "length (mRUDecodeVec rd') = length (mRUDecodeVec rd2)"
          "\<forall>q. ruInfo (mRUDecodeVec rd' ! q) = ruInfo (mRUDecodeVec rd2 ! q) \<and>
           links (mRUDecodeVec rd' ! q) = links (mRUDecodeVec rd2 ! q) \<and>
           cableData (mRUDecodeVec rd' ! q) = cableData (mRUDecodeVec rd2 ! q) \<and>
           cableHWID (mRUDecodeVec rd' ! q) = cableHWID (mRUDecodeVec rd2 ! q) \<and>
           length (chipsData (mRUDecodeVec rd' ! q)) = length (chipsData (mRUDecodeVec rd2 ! q)) \<and>
           (lo \<le> q \<and> q \<le> hi \<longrightarrow> nChipsFired (mRUDecodeVec rd' ! q) \<le> nat MaxChipsPerRU)"
        by blast
      have fr: "\<forall>q. ruInfo (mRUDecodeVec rd2 ! q) = ruInfo (?vec ! q) \<and>
           links (mRUDecodeVec rd2 ! q) = links (?vec ! q) \<and>
           cableData (mRUDecodeVec rd2 ! q) = cableData (?vec ! q) \<and>
           cableHWID (mRUDecodeVec rd2 ! q) = cableHWID (?vec ! q) \<and>
           length (chipsData (mRUDecodeVec rd2 ! q)) = length (chipsData (?vec ! q))"
        using f2 by (simp add: v2 at d_def)
      from rec post fr step show ?thesis
        by (intro exI [of _ rd'] exI [of _ cid'] exI [of _ cur']) (simp add: v2)
    qed
  next
    case False
    then have same: "cid = ?c" by simp
    then have runs: "chipRuns cid (map chipIndex (dig # rest)) = chipRuns cid (map chipIndex rest)"
      by simp
    from Cons.prems(2) same obtain r k where cur: "cur = Some (r, k)"
      by (cases cur) auto
    define d where "d = ?vec ! r"
    define d2 where "d2 = d\<lparr>chipsData := (chipsData d)
           [k := (chipsData d ! k)\<lparr>pixels := pixels (chipsData d ! k) @ [(row dig, col dig)]\<rparr>]\<rparr>"
    define rd2 where "rd2 = rd\<lparr>mRUDecodeVec := ?vec[r := d2]\<rparr>"
    have step: "placeDigits M lo hi (dig # rest) (rd, cid, cur) =
                placeDigits M lo hi rest (rd2, cid, cur)"
      using same cur by (simp add: Let_def bindF_def rd2_def d2_def d_def)
    have v2: "mRUDecodeVec rd2 = ?vec[r := d2]" "mNRUs rd2 = mNRUs rd" by (simp_all add: rd2_def)
    have f2: "ruInfo d2 = ruInfo d" "links d2 = links d" "cableData d2 = cableData d"
      "cableHWID d2 = cableHWID d" "length (chipsData d2) = length (chipsData d)"
      "nChipsFired d2 = nChipsFired d"
      by (simp_all add: d2_def)
    have fr: "\<forall>q. ruInfo (mRUDecodeVec rd2 ! q) = ruInfo (?vec ! q) \<and>
         links (mRUDecodeVec rd2 ! q) = links (?vec ! q) \<and>
         cableData (mRUDecodeVec rd2 ! q) = cableData (?vec ! q) \<and>
         cableHWID (mRUDecodeVec rd2 ! q) = cableHWID (?vec ! q) \<and>
         length (chipsData (mRUDecodeVec rd2 ! q)) = length (chipsData (?vec ! q)) \<and>
         nChipsFired (mRUDecodeVec rd2 ! q) = nChipsFired (?vec ! q)"
    proof
      fix q
      show "ruInfo (mRUDecodeVec rd2 ! q) = ruInfo (?vec ! q) \<and>
         links (mRUDecodeVec rd2 ! q) = links (?vec ! q) \<and>
         cableData (mRUDecodeVec rd2 ! q) = cableData (?vec ! q) \<and>
         cableHWID (mRUDecodeVec rd2 ! q) = cableHWID (?vec ! q) \<and>
         length (chipsData (mRUDecodeVec rd2 ! q)) = length (chipsData (?vec ! q)) \<and>
         nChipsFired (mRUDecodeVec rd2 ! q) = nChipsFired (?vec ! q)"
      proof (cases "q = r \<and> r < length ?vec")
        case True with f2 show ?thesis by (simp add: v2 d_def)
      next
        case False
        then have "?vec[r := d2] ! q = ?vec ! q"
          by (metis list_update_beyond linorder_not_less nth_list_update_neq)
        then show ?thesis by (simp add: v2)
      qed
    qed
    have p1: "\<forall>q. lo \<le> q \<and> q \<le> hi \<longrightarrow> q < length (mRUDecodeVec rd2) \<and>
        length (chipsData (mRUDecodeVec rd2 ! q)) = nat MaxChipsPerRU \<and>
        nChipsFired (mRUDecodeVec rd2 ! q) + chipRuns cid (map chipIndex rest) \<le> nat MaxChipsPerRU"
      using Cons.prems(1) fr unfolding runs by (simp add: v2)
    have p2: "cur = None \<longrightarrow> (\<forall>dig\<in>set rest. chipIndex dig \<noteq> cid)" using cur by simp
    from Cons.IH [OF p1 p2] obtain rd' cid' cur' where
      rec: "placeDigits M lo hi rest (rd2, cid, cur) = Inr (rd', cid', cur')"
      and post: "mNRUs rd' = mNRUs rd2" "length (mRUDecodeVec rd') = length (mRUDecodeVec rd2)"
        "\<forall>q. ruInfo (mRUDecodeVec rd' ! q) = ruInfo (mRUDecodeVec rd2 ! q) \<and>
         links (mRUDecodeVec rd' ! q) = links (mRUDecodeVec rd2 ! q) \<and>
         cableData (mRUDecodeVec rd' ! q) = cableData (mRUDecodeVec rd2 ! q) \<and>
         cableHWID (mRUDecodeVec rd' ! q) = cableHWID (mRUDecodeVec rd2 ! q) \<and>
         length (chipsData (mRUDecodeVec rd' ! q)) = length (chipsData (mRUDecodeVec rd2 ! q)) \<and>
         (lo \<le> q \<and> q \<le> hi \<longrightarrow> nChipsFired (mRUDecodeVec rd' ! q) \<le> nat MaxChipsPerRU)"
      by blast
    from rec post fr step show ?thesis
      by (intro exI [of _ rd'] exI [of _ cid'] exI [of _ cur']) (simp add: v2)
  qed
qed


text \<open>
  Booking from the state the constructor leaves: the unit \<open>i\<close> gets the slot \<open>i\<close>, so
  that the container \<^verbatim>\<open>digits2raw\<close> takes for a unit (the element of its software id) is
  the one booked for it.
\<close>

lemma bookContainers_fresh:
  assumes ncab: "\<forall>r. nCablesRU (getRUInfoSW M r) \<le> nat MaxCablesPerRU"
    and b: "b < n" "b < getNRUs M"
  shows "i \<le> Suc b \<Longrightarrow> mNRUs rd = i \<Longrightarrow> length (mRUEntry rd) = n \<Longrightarrow>
     length (mRUDecodeVec rd) = n \<Longrightarrow>
     (\<forall>r. i \<le> r \<and> r < n \<longrightarrow> mRUEntry rd ! r = - 1 \<and> mRUDecodeVec rd ! r = newRUDecodeData) \<Longrightarrow>
     \<exists>rd'. bookContainers M [i..<Suc b] rd = Inr rd' \<and> mNRUs rd' = Suc b \<and>
        length (mRUDecodeVec rd') = n \<and>
        (\<forall>r. i \<le> r \<and> r \<le> b \<longrightarrow>
           encodable (mRUDecodeVec rd' ! r) \<and> nChipsFired (mRUDecodeVec rd' ! r) = 0) \<and>
        (\<forall>r<i. mRUDecodeVec rd' ! r = mRUDecodeVec rd ! r)"
proof (induction "Suc b - i" arbitrary: i rd)
  case 0
  then have i: "i = Suc b" by simp
  have run: "bookContainers M [i..<Suc b] rd = Inr rd" using i by simp
  have vac: "\<forall>r. i \<le> r \<and> r \<le> b \<longrightarrow>
      encodable (mRUDecodeVec rd ! r) \<and> nChipsFired (mRUDecodeVec rd ! r) = 0"
    using i by auto
  from run vac "0.prems"(2,4) i show ?case by (intro exI [of _ rd]) simp
next
  case (Suc m)
  from Suc.hyps(2) have ib: "i \<le> b" by simp
  with b have inn: "i < n" "i < getNRUs M" by simp_all
  define info where "info = getRUInfoSW M i"
  define dA where "dA = newRUDecodeData\<lparr>ruInfo := Some info\<rparr>"
  define dC where "dC = dA\<lparr>links := (links dA)[0 := Some (newRULink\<lparr>lanes := getCablesOnRUType M (ruType info)\<rparr>)]\<rparr>"
  define rdA where "rdA = rd\<lparr>mRUEntry := (mRUEntry rd)[i := int i], mNRUs := i + 1,
       mRUDecodeVec := (mRUDecodeVec rd)[i := dA]\<rparr>"
  define rdC where "rdC = rdA\<lparr>mNLinks := mNLinks rdA + 0\<rparr>
       \<lparr>mRUDecodeVec := (mRUDecodeVec rdA)[i := dC], mNLinks := mNLinks rdA + 0 + 1\<rparr>"
  from Suc.prems(5) inn have fresh: "mRUEntry rd ! i = - 1" "mRUDecodeVec rd ! i = newRUDecodeData"
    by simp_all
  have gc: "getCreateRUDecode M i rd = Inr (i, rdA)"
    using inn fresh Suc.prems(2,3,4)
    by (simp add: getCreateRUDecode_def Let_def rdA_def dA_def info_def)
  have atA: "mRUDecodeVec rdA ! i = dA" using inn Suc.prems(4) by (simp add: rdA_def)
  have nl: "length (filter (\<lambda>l. l \<noteq> None) (links dA)) = 0"
    by (simp add: dA_def newRUDecodeData_def)
  have lne: "links dA \<noteq> []" by (simp add: dA_def newRUDecodeData_def MaxLinksPerRU_def)
  have ri: "ruInfo dA = Some info" by (simp add: dA_def)
  have step: "bookContainers M (i # [Suc i..<Suc b]) rd = bookContainers M [Suc i..<Suc b] rdC"
    using gc atA nl lne ri
    by (simp add: bindF_def Let_def rdC_def dC_def)
  have upt: "[i..<Suc b] = i # [Suc i..<Suc b]" using ib by (simp add: upt_conv_Cons)
  have vC: "mRUDecodeVec rdC = (mRUDecodeVec rd)[i := dC]" "mNRUs rdC = Suc i"
    "length (mRUEntry rdC) = n" "length (mRUDecodeVec rdC) = n"
    using Suc.prems(3,4) by (simp_all add: rdC_def rdA_def)
  have eC: "mRUEntry rdC = (mRUEntry rd)[i := int i]" by (simp add: rdC_def rdA_def)
  have freshC: "\<forall>r. Suc i \<le> r \<and> r < n \<longrightarrow> mRUEntry rdC ! r = - 1 \<and> mRUDecodeVec rdC ! r = newRUDecodeData"
    using Suc.prems(5) by (simp add: vC eC)
  have m: "m = Suc b - Suc i" using Suc.hyps(2) by simp
  have le: "Suc i \<le> Suc b" using ib by simp
  from Suc.hyps(1) [OF m le vC(2) vC(3) vC(4) freshC] obtain rd' where
    rec: "bookContainers M [Suc i..<Suc b] rdC = Inr rd'" and
    post: "mNRUs rd' = Suc b" "length (mRUDecodeVec rd') = n"
      "\<forall>r. Suc i \<le> r \<and> r \<le> b \<longrightarrow>
           encodable (mRUDecodeVec rd' ! r) \<and> nChipsFired (mRUDecodeVec rd' ! r) = 0"
      "\<forall>r<Suc i. mRUDecodeVec rd' ! r = mRUDecodeVec rdC ! r"
    by blast
  from post(4) inn Suc.prems(4) have ati: "mRUDecodeVec rd' ! i = dC" by (simp add: vC)
  have encC: "encodable dC \<and> nChipsFired dC = 0"
    using ncab
    by (auto simp: encodable_def dC_def dA_def info_def newRUDecodeData_def emptyCont_def
        MaxLinksPerRU_def nth_list_update)
  have low: "\<forall>r<i. mRUDecodeVec rd' ! r = mRUDecodeVec rd ! r"
    using post(4) by (simp add: vC)
  have all: "\<forall>r. i \<le> r \<and> r \<le> b \<longrightarrow>
           encodable (mRUDecodeVec rd' ! r) \<and> nChipsFired (mRUDecodeVec rd' ! r) = 0"
  proof (intro allI impI)
    fix r assume r: "i \<le> r \<and> r \<le> b"
    show "encodable (mRUDecodeVec rd' ! r) \<and> nChipsFired (mRUDecodeVec rd' ! r) = 0"
    proof (cases "r = i")
      case True with ati encC show ?thesis by simp
    next
      case False with r post(3) show ?thesis by simp
    qed
  qed
  from rec step upt post(1,2) all low show ?case by simp
qed


lemma encode_returns:
  assumes cab: "\<forall>t k. cableSW (getChipOnRUInfo M t k) < nat MaxCablesPerRU"
    and ready: "encReady a b rd"
    and chips: "\<forall>dig\<in>set digs. chipIndex dig \<noteq> 0xFFFF"
    and runs: "chipRuns 0xFFFF (map chipIndex digs) \<le> nat MaxChipsPerRU"
  shows "\<exists>rd3 cid cur rd' k.
     placeDigits M a b digs (rd, 0xFFFF, None) = Inr (rd3, cid, cur) \<and>
     convertRUs M C W [a..<Suc b] (rd3\<lparr>mCurRUDecodeID := int a\<rparr>) mp = Inr (rd', k) \<and>
     encReady a b rd'"
proof -
  from ready have blen: "b < length (mRUDecodeVec rd)"
    and nb: "\<not> int (mNRUs rd) < int b - int a"
    and enc: "\<And>r. a \<le> r \<Longrightarrow> r \<le> b \<Longrightarrow>
        encodable (mRUDecodeVec rd ! r) \<and> nChipsFired (mRUDecodeVec rd ! r) = 0"
    by (simp_all add: encReady_def)
  have p1: "\<forall>r. a \<le> r \<and> r \<le> b \<longrightarrow> r < length (mRUDecodeVec rd) \<and>
        length (chipsData (mRUDecodeVec rd ! r)) = nat MaxChipsPerRU \<and>
        nChipsFired (mRUDecodeVec rd ! r) + chipRuns 0xFFFF (map chipIndex digs) \<le> nat MaxChipsPerRU"
    using blen enc runs by (auto simp: encodable_def)
  have p2: "(None :: (nat \<times> nat) option) = None \<longrightarrow> (\<forall>dig\<in>set digs. chipIndex dig \<noteq> 0xFFFF)"
    using chips by simp
  from placeDigits_returns [OF p1 p2, of M] obtain rd3 cid cur where
    pl: "placeDigits M a b digs (rd, 0xFFFF, None) = Inr (rd3, cid, cur)"
    and fr: "mNRUs rd3 = mNRUs rd" "length (mRUDecodeVec rd3) = length (mRUDecodeVec rd)"
      "\<And>r. ruInfo (mRUDecodeVec rd3 ! r) = ruInfo (mRUDecodeVec rd ! r) \<and>
           links (mRUDecodeVec rd3 ! r) = links (mRUDecodeVec rd ! r) \<and>
           cableData (mRUDecodeVec rd3 ! r) = cableData (mRUDecodeVec rd ! r) \<and>
           cableHWID (mRUDecodeVec rd3 ! r) = cableHWID (mRUDecodeVec rd ! r) \<and>
           length (chipsData (mRUDecodeVec rd3 ! r)) = length (chipsData (mRUDecodeVec rd ! r)) \<and>
           (a \<le> r \<and> r \<le> b \<longrightarrow> nChipsFired (mRUDecodeVec rd3 ! r) \<le> nat MaxChipsPerRU)"
    by blast
  define rd4 where "rd4 = rd3\<lparr>mCurRUDecodeID := int a\<rparr>"
  have v4: "mRUDecodeVec rd4 = mRUDecodeVec rd3" "mNRUs rd4 = mNRUs rd3" by (simp_all add: rd4_def)
  have pre: "\<forall>r\<in>set [a..<Suc b]. r < length (mRUDecodeVec rd4) \<and> encodable (mRUDecodeVec rd4 ! r)"
  proof
    fix r assume "r \<in> set [a..<Suc b]"
    then have r: "a \<le> r" "r \<le> b" by auto
    from enc [OF r] fr(3) [of r] r have "encodable (mRUDecodeVec rd3 ! r)"
      by (simp add: encodable_def)
    with r blen fr(2) show "r < length (mRUDecodeVec rd4) \<and> encodable (mRUDecodeVec rd4 ! r)"
      by (simp add: v4)
  qed
  have dist: "distinct [a..<Suc b]" by simp
  from convertRUs_returns [OF cab pre dist, of C W mp] obtain rd' k where
    cv: "convertRUs M C W [a..<Suc b] rd4 mp = Inr (rd', k)"
    and post: "length (mRUDecodeVec rd') = length (mRUDecodeVec rd4)" "mNRUs rd' = mNRUs rd4"
      "\<forall>r\<in>set [a..<Suc b]. encodable (mRUDecodeVec rd' ! r) \<and> nChipsFired (mRUDecodeVec rd' ! r) = 0"
    by blast
  have "\<And>r. a \<le> r \<Longrightarrow> r \<le> b \<Longrightarrow>
      encodable (mRUDecodeVec rd' ! r) \<and> nChipsFired (mRUDecodeVec rd' ! r) = 0"
  proof -
    fix r assume "a \<le> r" "r \<le> b"
    then have "r \<in> set [a..<Suc b]" by auto
    with post(3) show "encodable (mRUDecodeVec rd' ! r) \<and> nChipsFired (mRUDecodeVec rd' ! r) = 0"
      by blast
  qed
  then have "encReady a b rd'"
    using post(1,2) blen nb fr(1,2) by (simp add: encReady_def v4)
  with pl cv show ?thesis unfolding rd4_def by blast
qed

lemma take_last:
  "take ((if from + ndig \<le> length xs then from + ndig else length xs) - from) (drop from xs) =
   take ndig (drop from xs)"
  by simp

text \<open>
  A call of \<^verbatim>\<open>digits2raw\<close> returns, and leaves the reader ready for the next call, when
  the reader is ready for the units \<open>ruSWMin, ..., b\<close> (\<open>b\<close> the clipped \<open>ruSWMax\<close>) or as
  its constructor left it (then for the units from 0 on, at least two of them), the
  mapping puts the chips on cables of the container, and the digits have no chip
  \<open>0xffff\<close> and change the chip at most \<open>MaxChipsPerRU\<close> times.
\<close>

lemma digits2raw_returns:
  assumes frm: "from < length digiVec"
    and cab: "\<forall>t k. cableSW (getChipOnRUInfo M t k) < nat MaxCablesPerRU"
    and ncab: "\<forall>r. nCablesRU (getRUInfoSW M r) \<le> nat MaxCablesPerRU"
    and chips: "\<forall>dig\<in>set (take ndig (drop from digiVec)). chipIndex dig \<noteq> 0xFFFF"
    and runs: "chipRuns 0xFFFF (map chipIndex (take ndig (drop from digiVec))) \<le> nat MaxChipsPerRU"
    and b: "b = unat (if ruSWMax < of_nat (getNRUs M) then ruSWMax else of_nat (getNRUs M) - 1)"
    and ready: "encReady (unat ruSWMin) b rd \<or>
       (freshReader n rd \<and> ruSWMin = 0 \<and> 0 < b \<and> b < n \<and> b < getNRUs M \<and> b < 255)"
  shows "\<exists>rd' k. digits2raw M C W digiVec from ndig bcData ruSWMin ruSWMax rd = Inr (rd', k) \<and>
           encReady (unat ruSWMin) b rd'"
proof -
  define ruSWMax' where
    "ruSWMax' = (if ruSWMax < of_nat (getNRUs M) then ruSWMax else of_nat (getNRUs M) - 1)"
  have b': "unat ruSWMax' = b" by (simp add: b ruSWMax'_def)
  define a where "a = unat ruSWMin"
  define rd1 where "rd1 = rd\<lparr>mInteractionRecord := bcData\<rparr>"
  define digs where "digs = take ndig (drop from digiVec)"
  have v1: "mRUDecodeVec rd1 = mRUDecodeVec rd" "mNRUs rd1 = mNRUs rd" "mRUEntry rd1 = mRUEntry rd"
    by (simp_all add: rd1_def)
  have "\<exists>rd2. (if int (mNRUs rd1) < int b - int a then bookLoop M ruSWMin ruSWMax' rd1 else Inr rd1)
           = Inr rd2 \<and> encReady a b rd2"
    using ready
  proof
    assume r: "encReady (unat ruSWMin) b rd"
    then have "encReady a b rd1" by (simp add: encReady_def v1 a_def)
    moreover from r have "\<not> int (mNRUs rd1) < int b - int a"
      by (simp add: encReady_def v1 a_def)
    ultimately show ?thesis by simp
  next
    assume f: "freshReader n rd \<and> ruSWMin = 0 \<and> 0 < b \<and> b < n \<and> b < getNRUs M \<and> b < 255"
    then have a0: "a = 0" by (simp add: a_def)
    from f have need: "int (mNRUs rd1) < int b - int a" by (simp add: freshReader_def v1 a0)
    from f b' have n255: "ruSWMax' \<noteq> 0xFF" by auto
    have fresh: "\<forall>r. 0 \<le> r \<and> r < n \<longrightarrow> mRUEntry rd1 ! r = - 1 \<and> mRUDecodeVec rd1 ! r = newRUDecodeData"
      using f by (simp add: freshReader_def v1)
    from f have bn: "b < n" "b < getNRUs M" by simp_all
    from f have l: "mNRUs rd1 = 0" "length (mRUEntry rd1) = n" "length (mRUDecodeVec rd1) = n"
      by (simp_all add: freshReader_def v1)
    from bookContainers_fresh [OF ncab bn _ l fresh] obtain rd2 where
      bk: "bookContainers M [0..<Suc b] rd1 = Inr rd2" and
      post: "mNRUs rd2 = Suc b" "length (mRUDecodeVec rd2) = n"
        "\<forall>r. 0 \<le> r \<and> r \<le> b \<longrightarrow>
           encodable (mRUDecodeVec rd2 ! r) \<and> nChipsFired (mRUDecodeVec rd2 ! r) = 0"
      by auto
    have "bookLoop M ruSWMin ruSWMax' rd1 = Inr rd2"
      using bk n255 f b' by (simp add: bookLoop_def)
    moreover have "encReady a b rd2" using post bn by (simp add: encReady_def a0)
    ultimately show ?thesis using need by auto
  qed
  then obtain rd2 where
    bk: "(if int (mNRUs rd1) < int b - int a then bookLoop M ruSWMin ruSWMax' rd1 else Inr rd1) = Inr rd2"
    and r2: "encReady a b rd2" by blast
  from encode_returns [OF cab r2, of digs C W "0xFFFFFF"] chips runs obtain rd3 cid cur rd' k where
    pl: "placeDigits M a b digs (rd2, 0xFFFF, None) = Inr (rd3, cid, cur)"
    and cv: "convertRUs M C W [a..<Suc b] (rd3\<lparr>mCurRUDecodeID := int a\<rparr>) 0xFFFFFF = Inr (rd', k)"
    and r': "encReady a b rd'"
    unfolding digs_def by blast
  have "digits2raw M C W digiVec from ndig bcData ruSWMin ruSWMax rd = Inr (rd', k)"
    unfolding digits2raw_def Let_def ruSWMax'_def [symmetric] rd1_def [symmetric] take_last
      digs_def [symmetric] b' a_def [symmetric]
    using frm bk pl cv by (simp add: bindF_def)
  with r' show ?thesis by (auto simp: a_def)
qed


section \<open>The encoder on a small detector\<close>

lemma replicate_3: "replicate 3 x = [x, x, x]"
  by (simp add: eval_nat_numeral)

lemma replicate_2: "replicate 2 x = [x, x]"
  by (simp add: eval_nat_numeral)

lemmas demo_eval = replicate_3 replicate_2 GBTPaddedWordLength_def digits2raw_def bookLoop_def
     getCreateRUDecode_def
     newReader_def bindF_def Let_def demoIR_def
     demoMapping_def demoCoder_def newRUDecodeData_def MaxLinksPerRU_def MaxChipsPerRU_def MaxCablesPerRU_def
     emptyChip_def convertChip_def fillRULinks_def sortPixels_def clearChip_def
     linkChunks_def countGBTWords_def servesLane_def wordsOfCable_def
      getSize_def getUnusedSize_def fillPages.simps fillStep_def 
      maxGBTWordsPerPacket_triggerRDH firstPageRDH_def unusedBytes_def setPtr_def addFast_def emptyCont_def
      unusedTotal_def newPage_def clearTrigger_def dummyNPages_def newRULink_def

text \<open>
  The theorem at work: one digit of chip 0, encoded by a reader as constructed for the
  two units of the small detector. Afterwards the container of unit 0 has no cable, no
  fired chip, empty cable buffers and no pixel in any chip buffer.
\<close>

theorem digits2raw_clears_trigger_state_witness:
  "case digits2raw demoMapping demoCoder demoWire [\<lparr>chipIndex = 0, row = 3, col = 5\<rparr>] 0 1
      demoIR 0 0xFF (newReader 2) of
     Inl e \<Rightarrow> False
   | Inr (rd', n) \<Rightarrow>
       nCables (mRUDecodeVec rd' ! 0) = 0 \<and> nChipsFired (mRUDecodeVec rd' ! 0) = 0 \<and>
       cableData (mRUDecodeVec rd' ! 0) = replicate 28 emptyCont \<and>
       map pixels (chipsData (mRUDecodeVec rd' ! 0)) = replicate 196 []"
proof -
  let ?run = "digits2raw demoMapping demoCoder demoWire [\<lparr>chipIndex = 0, row = 3, col = 5\<rparr>] 0 1
      demoIR 0 0xFF (newReader 2)"
  let ?d0 = "mRUDecodeVec (newReader 2) ! 0"
  have "\<exists>rd' n. ?run = Inr (rd', n) \<and>
      ruInfo (mRUDecodeVec rd' ! 0) = Some (getRUInfoSW demoMapping 0)"
    by (simp add: demo_eval)
  then obtain rd' n where run: "?run = Inr (rd', n)"
    and info0: "ruInfo (mRUDecodeVec rd' ! 0) = Some (getRUInfoSW demoMapping 0)"
    by blast
  have hi: "0 \<le> unat (if (0xFF :: 8 word) < of_nat (getNRUs demoMapping) then 0xFF
               else of_nat (getNRUs demoMapping) - 1)"
    by simp
  from digits2raw_clears_trigger_state [OF run _ hi] info0
  obtain m where nc: "nCables (mRUDecodeVec rd' ! 0) = 0" and nf: "nChipsFired (mRUDecodeVec rd' ! 0) = 0"
    and len: "length (cableData (mRUDecodeVec rd' ! 0)) = length (cableData ?d0)"
    and imp: "(\<forall>k. cableSW (getChipOnRUInfo demoMapping (ruType (getRUInfoSW demoMapping 0)) k)
            < nCablesRU (getRUInfoSW demoMapping 0)) \<and>
      (\<forall>i. nCablesRU (getRUInfoSW demoMapping 0) \<le> i \<and> i < length (cableData ?d0) \<longrightarrow>
           cableData ?d0 ! i = emptyCont)
      \<longrightarrow> (\<forall>i<length (cableData (mRUDecodeVec rd' ! 0)).
             cableData (mRUDecodeVec rd' ! 0) ! i = emptyCont)"
    and clen: "length (chipsData (mRUDecodeVec rd' ! 0)) = length (chipsData ?d0)"
    and cl: "\<forall>k<m. pixels (chipsData (mRUDecodeVec rd' ! 0) ! k) = []"
    and keep: "\<forall>k. m \<le> k \<longrightarrow> chipsData (mRUDecodeVec rd' ! 0) ! k = chipsData ?d0 ! k"
    by auto
  have d0: "cableData ?d0 = replicate 28 emptyCont" "chipsData ?d0 = replicate 196 emptyChip"
    by (simp_all add: newReader_def replicate_2 newRUDecodeData_def MaxCablesPerRU_def MaxChipsPerRU_def)
  have l28: "length (cableData (mRUDecodeVec rd' ! 0)) = 28" using len d0 by simp
  have "(\<forall>k. cableSW (getChipOnRUInfo demoMapping (ruType (getRUInfoSW demoMapping 0)) k)
            < nCablesRU (getRUInfoSW demoMapping 0)) \<and>
      (\<forall>i. nCablesRU (getRUInfoSW demoMapping 0) \<le> i \<and> i < length (cableData ?d0) \<longrightarrow>
           cableData ?d0 ! i = emptyCont)"
    by (simp add: d0 demoMapping_def)
  with imp have "\<forall>i<length (cableData (mRUDecodeVec rd' ! 0)).
      cableData (mRUDecodeVec rd' ! 0) ! i = emptyCont"
    by blast
  with l28 have cab: "cableData (mRUDecodeVec rd' ! 0) = replicate 28 emptyCont"
    by (simp add: list_eq_iff_nth_eq)
  have l196: "length (chipsData (mRUDecodeVec rd' ! 0)) = 196" using clen d0 by simp
  have px: "\<And>k. k < 196 \<Longrightarrow> pixels (chipsData (mRUDecodeVec rd' ! 0) ! k) = []"
  proof -
    fix k :: nat assume k: "k < 196"
    show "pixels (chipsData (mRUDecodeVec rd' ! 0) ! k) = []"
    proof (cases "k < m")
      case True with cl show ?thesis by simp
    next
      case False
      with keep have "chipsData (mRUDecodeVec rd' ! 0) ! k = chipsData ?d0 ! k" by simp
      with k show ?thesis by (simp add: d0 emptyChip_def)
    qed
  qed
  have chp: "map pixels (chipsData (mRUDecodeVec rd' ! 0)) = replicate 196 []"
  proof (rule nth_equalityI)
    show "length (map pixels (chipsData (mRUDecodeVec rd' ! 0))) = length (replicate 196 ([] :: (nat \<times> nat) list))"
      using l196 by simp
  next
    fix i assume "i < length (map pixels (chipsData (mRUDecodeVec rd' ! 0)))"
    then have i: "i < 196" using l196 by simp
    with px [OF i] l196 show "map pixels (chipsData (mRUDecodeVec rd' ! 0)) ! i = replicate 196 [] ! i"
      by simp
  qed
  show ?thesis
    by (simp only: run sum.case prod.case nc nf cab chp simp_thms)
qed

text \<open>
  The conditions of the lemma on returning calls hold for this reader and this digit.
\<close>

lemma digits2raw_returns_demo:
  "\<exists>rd' k. digits2raw demoMapping demoCoder demoWire [\<lparr>chipIndex = 0, row = 3, col = 5\<rparr>] 0 1
      demoIR 0 0xFF (newReader 2) = Inr (rd', k) \<and> encReady 0 1 rd'"
proof -
  have b: "(1 :: nat) = unat (if (0xFF :: 8 word) < of_nat (getNRUs demoMapping) then 0xFF
               else of_nat (getNRUs demoMapping) - 1)"
    by (simp add: demoMapping_def)
  have fr: "freshReader 2 (newReader 2)" by (simp add: freshReader_def newReader_def)
  from digits2raw_returns [of 0 "[\<lparr>chipIndex = 0, row = 3, col = 5\<rparr>]" demoMapping 1 1 "0xFF" 0
      "newReader 2" 2 demoCoder demoWire demoIR, OF _ _ _ _ _ b]
    fr
  show ?thesis by (simp add: demoMapping_def MaxCablesPerRU_def MaxChipsPerRU_def)
qed


section \<open>Caching the pages of the links\<close>

lemma replicate_6: "replicate 6 x = [x, x, x, x, x, x]"
  by (simp add: eval_nat_numeral)

lemma replicate_8: "replicate 8 x = [x, x, x, x, x, x, x, x]"
  by (simp add: eval_nat_numeral)

lemma replicate_16: "replicate 16 x = replicate 8 x @ replicate 8 x"
  by (simp add: replicate_add [symmetric])

lemma replicate_64: "replicate 64 x = replicate 16 x @ replicate 16 x @ replicate 16 x @ replicate 16 x"
  by (simp add: replicate_add [symmetric])

lemma demoPage_bytes:
  "demoPage r ob = [4, 64, 0xFF, 0xFF, ucast (of_nat r :: 16 word), ucast (drop_bit 8 (of_nat r :: 16 word)), 0, 0,
      128, 0, 112, 0, 0, 0, 0, 0] @ le32 ob @ le32 ob @ [0,0,0,0,0,0,0,0,
      0,0,0,0,0x10,0,0,0, 0,0,0,0,0,0,0,0,  0,0,0,0,0,0,0,0, 0,0,0,0,0,0,0,0,
      1,0,0,0,0,0,0,0,0,0xE0,0,0,0,0,0,0,
      0xA0, 42, 3, 5, 0xB0, 0, 0, 0, 0, 0x20, 0,0,0,0,0,0,
      1,0,0,0,0,0,0,0,0,0xF0,0,0,0,0,0,0,
      0,0,0,0,0,0,0,0,0,0,0,0,0,0,0,0]"
  by (simp add: demoPage_def rdhV4Bytes_def defaultRDH_def demoWire_def le16_def le32_def le64_def
        replicate_6 replicate_8 replicate_16)

lemma demoPage_0_1:
  "demoPage 0 1 = [4, 64, 0xFF, 0xFF, 0, 0, 0, 0,
      128, 0, 112, 0, 0, 0, 0, 0, 1,0,0,0, 1,0,0,0, 0,0,0,0,0,0,0,0,
      0,0,0,0,0x10,0,0,0, 0,0,0,0,0,0,0,0,  0,0,0,0,0,0,0,0, 0,0,0,0,0,0,0,0,
      1,0,0,0,0,0,0,0,0,0xE0,0,0,0,0,0,0,
      0xA0, 42, 3, 5, 0xB0, 0, 0, 0, 0, 0x20, 0,0,0,0,0,0,
      1,0,0,0,0,0,0,0,0,0xF0,0,0,0,0,0,0,
      0,0,0,0,0,0,0,0,0,0,0,0,0,0,0,0]"
  by (simp add: demoPage_bytes le32_def)

lemma demoPage_1_1:
  "demoPage (Suc 0) 1 = [4, 64, 0xFF, 0xFF, 1, 0, 0, 0,
      128, 0, 112, 0, 0, 0, 0, 0, 1,0,0,0, 1,0,0,0, 0,0,0,0,0,0,0,0,
      0,0,0,0,0x10,0,0,0, 0,0,0,0,0,0,0,0,  0,0,0,0,0,0,0,0, 0,0,0,0,0,0,0,0,
      1,0,0,0,0,0,0,0,0,0xE0,0,0,0,0,0,0,
      0xA0, 42, 3, 5, 0xB0, 0, 0, 0, 0, 0x20, 0,0,0,0,0,0,
      1,0,0,0,0,0,0,0,0,0xF0,0,0,0,0,0,0,
      0,0,0,0,0,0,0,0,0,0,0,0,0,0,0,0]"
  by (simp add: demoPage_bytes le32_def)

lemmas cache_eval = demoPage_0_1 demoPage_1_1 staleHeaderBytes_def
  cacheLinksData_def cacheLoop.simps findNextRDH.simps cachePage_def readRDH_def
  isRDHHeuristic_def isEmpty_def setPtr_def addFast_def sizeofRDH_def GBTPaddedWordLength_def
  getCreateRUDecode_def newReader_def bindF_def Let_def demoMapping_def demoWire_def
  newRUDecodeData_def MaxLinksPerRU_def replicate_3 replicate_2 rdhV4At_def rd16_def rd32_def rd64_def
  newRULink_def emptyCont_def minTriggersOfLinks_def INT_MAX_def NCRUPagesPerSuperpage_def
  readerOn_def isSameRUandTrigger_def

lemmas decode_eval = getNextChipData.simps decodeNextTrigger_def firstLinkWithData_def
  decodeNextRUData_def decodeRUData_def decodePages.simps readGBT_def GBTWordLength_def
  decodeAlpideData_def decodeChips.simps demoCoder_def endOfTriggerChecks_def checkLaneStops_def
  checkLanesWithData_def countPacketState_def countError_def clearTrigger_def clearCont_def
  unusedBytes_def getUnusedSize_def MaxChipsPerRU_def MaxCablesPerRU_def emptyChip_def newStat_def
  zeroSlack_def replicate_64 replicate_16 replicate_8

text \<open>
  A page that comes with padding is stored without it: the link buffer holds the 112
  bytes of the page and its header has the offset to the next page set to 112.
\<close>

lemma cacheLinksData_packs_page:
  "\<exists>rd link. cacheLinksData demoMapping demoWire [] (readerOn (demoPage 0 1)) = Some (Inr rd) \<and>
     mRUEntry rd = [0, - 1] \<and> links (mRUDecodeVec rd ! 0) ! 0 = Some link \<and>
     buf (data link) = (take 112 (demoPage 0 1))[8 := 112] \<and> lastPageSize link = 112 \<and>
     memorySize (rdhAt demoWire (buf (data link))) = 112 \<and>
     offsetToNext (rdhAt demoWire (buf (data link))) = 112"
  by (simp add: cache_eval)

text \<open>
  Claim C9, as the code has it after a recovery. The raw buffer holds 16 bytes that are
  no header, then a page of unit 0 with 112 bytes in memory. \<^verbatim>\<open>findNextRDH\<close> moves the read
  pointer to the page, but \<^verbatim>\<open>cacheLinksData\<close> goes on with its pointer \<open>rdh\<close> on the 16
  bytes: the page is stored for unit 1, with the 80 bytes the stale header gives as size
  in memory, and the offset to the next page of the stored header is set to 80, while
  the stored header gives 112 bytes in memory.
\<close>

theorem cacheLinksData_recovery_stale_header:
  "\<exists>rd link. cacheLinksData demoMapping demoWire [] (readerOn (staleHeaderBytes @ demoPage 0 1))
       = Some (Inr rd) \<and>
     mRUEntry rd = [- 1, 0] \<and> links (mRUDecodeVec rd ! 0) ! 0 = Some link \<and>
     length (buf (data link)) = 80 \<and> lastPageSize link = 80 \<and>
     feeId (rdhAt demoWire (buf (data link))) = 0 \<and>
     memorySize (rdhAt demoWire (buf (data link))) = 112 \<and>
     offsetToNext (rdhAt demoWire (buf (data link))) = 80"
  by (simp add: cache_eval)


section \<open>Recovery of the read pointer\<close>

text \<open>
  Claim C3, as the code has it. \<^verbatim>\<open>findNextRDH\<close> looks at the positions 16, 32, ... bytes
  after the read pointer: when the bytes at \<open>16 * k\<close> after the pointer (\<open>k > 0\<close>) pass the
  check of a header, lie within the data of the buffer and no position \<open>16 * j\<close> before
  them (\<open>0 < j < k\<close>) passes the check, the call returns true with the read pointer at
  \<open>16 * k\<close> after the old one.
\<close>

theorem findNextRDH_resync:
  assumes k: "0 < k"
    and inside: "ptr b + 16 * k + 64 \<le> length (buf b)"
    and valid: "isRDHHeuristic (rdhAt W (take 64 (drop (ptr b + 16 * k) (buf b @ slack))))"
    and garbage: "\<forall>j. 0 < j \<and> j < k \<longrightarrow>
        \<not> isRDHHeuristic (rdhAt W (take 64 (drop (ptr b + 16 * j) (buf b @ slack))))"
  shows "findNextRDH W slack b = Inr (True, setPtr (ptr b + 16 * k) b)"
  using assms
proof (induction k arbitrary: b)
  case 0 then show ?case by simp
next
  case (Suc k)
  define b1 where "b1 = setPtr (ptr b + nat GBTPaddedWordLength) b"
  have p1: "ptr b1 = ptr b + 16" "buf b1 = buf b"
    by (simp_all add: b1_def setPtr_def GBTPaddedWordLength_def)
  from Suc.prems(2) have ne: "\<not> isEmpty b" "\<not> isEmpty b1"
    by (simp_all add: isEmpty_def p1)
  from Suc.prems(2) have rd: "readRDH W (buf b1 @ slack) (ptr b1) =
      Inr (rdhAt W (take 64 (drop (ptr b + 16) (buf b @ slack))))"
    by (simp add: readRDH_def p1 sizeofRDH_def)
  show ?case
  proof (cases "k = 0")
    case True
    with Suc.prems(3) have ok: "isRDHHeuristic (rdhAt W (take 64 (drop (ptr b + 16) (buf b @ slack))))"
      by simp
    have fin: "b1 = setPtr (ptr b + 16 * Suc k) b"
      using True by (simp add: b1_def GBTPaddedWordLength_def)
    from ne rd ok fin show ?thesis
      by (subst findNextRDH.simps) (simp add: Let_def b1_def [symmetric])
  next
    case False
    then have k: "0 < k" by simp
    from Suc.prems(4) [rule_format, of 1] k
    have no: "\<not> isRDHHeuristic (rdhAt W (take 64 (drop (ptr b + 16) (buf b @ slack))))" by simp
    have i1: "ptr b1 + 16 * k + 64 \<le> length (buf b1)" using Suc.prems(2) by (simp add: p1)
    have v1: "isRDHHeuristic (rdhAt W (take 64 (drop (ptr b1 + 16 * k) (buf b1 @ slack))))"
      using Suc.prems(3) by (simp add: p1 add.assoc)
    have g1: "\<forall>j. 0 < j \<and> j < k \<longrightarrow>
        \<not> isRDHHeuristic (rdhAt W (take 64 (drop (ptr b1 + 16 * j) (buf b1 @ slack))))"
    proof (intro allI impI)
      fix j assume "0 < j \<and> j < k"
      with Suc.prems(4) [rule_format, of "Suc j"]
      show "\<not> isRDHHeuristic (rdhAt W (take 64 (drop (ptr b1 + 16 * j) (buf b1 @ slack))))"
        by (simp add: p1 add.assoc)
    qed
    from Suc.IH [OF k i1 v1 g1]
    have rec: "findNextRDH W slack b1 = Inr (True, setPtr (ptr b1 + 16 * k) b1)" .
    have fin: "setPtr (ptr b1 + 16 * k) b1 = setPtr (ptr b + 16 * Suc k) b"
      by (simp add: b1_def setPtr_def GBTPaddedWordLength_def)
    from ne rd no rec fin show ?thesis
      by (subst findNextRDH.simps) (simp add: Let_def b1_def [symmetric])
  qed
qed

text \<open>
  The theorem at work: 32 bytes that are no header before a page. The position 16 does
  not pass the check, the position 32 does.
\<close>

theorem findNextRDH_resync_witness:
  "findNextRDH demoWire [] \<lparr>buf = staleHeaderBytes @ staleHeaderBytes @ demoPage 0 1, ptr = 0\<rparr> =
     Inr (True, \<lparr>buf = staleHeaderBytes @ staleHeaderBytes @ demoPage 0 1, ptr = 32\<rparr>)"
proof -
  let ?b = "\<lparr>buf = staleHeaderBytes @ staleHeaderBytes @ demoPage 0 1, ptr = 0\<rparr>"
  have g: "\<forall>j. 0 < j \<and> j < (2 :: nat) \<longrightarrow>
      \<not> isRDHHeuristic (rdhAt demoWire (take 64 (drop (ptr ?b + 16 * j) (buf ?b @ []))))"
  proof (intro allI impI)
    fix j :: nat assume "0 < j \<and> j < 2"
    then have "j = 1" by simp
    then show "\<not> isRDHHeuristic (rdhAt demoWire (take 64 (drop (ptr ?b + 16 * j) (buf ?b @ []))))"
      by (simp add: cache_eval)
  qed
  have v: "isRDHHeuristic (rdhAt demoWire (take 64 (drop (ptr ?b + 16 * 2) (buf ?b @ []))))"
    by (simp add: cache_eval)
  have i: "ptr ?b + 16 * 2 + 64 \<le> length (buf ?b)" by (simp add: cache_eval)
  from findNextRDH_resync [of 2 ?b demoWire "[]", OF _ i v g]
  show ?thesis by (simp add: setPtr_def)
qed

text \<open>
  The claim as stated fails. Eight bytes before a page: the page is at no position
  \<open>16 * k\<close> after the read pointer, no position passes the check, the raw buffer is used
  up without any page being stored, and the first call of \<^verbatim>\<open>getNextChipData\<close> finds no
  chip. The same page without the bytes before it gives its chip.
\<close>

theorem resync_misaligned_counterexample:
  "(\<exists>rd. getNextChipData demoMapping demoCoder demoWire zeroSlack emptyChip
           (readerOn (replicate 8 0 @ demoPage 0 1)) = Some (Inr (False, emptyChip, rd)) \<and>
        mNRUs rd = 0 \<and> mNLinks rd = 0 \<and> isEmpty (mRawBuffer rd)) \<and>
   (\<exists>c rd. getNextChipData demoMapping demoCoder demoWire zeroSlack emptyChip
           (readerOn (demoPage 0 1)) = Some (Inr (True, c, rd)) \<and>
        chipID c = 0 \<and> pixels c = [(3, 5)] \<and> mNLinks rd = 1)"
  by (simp add: cache_eval decode_eval)

end
